theory Spec2Isabelle
  imports Main
begin

section \<open>Machine model: heap of buffers, vector register file, access log\<close>

text \<open>
  The kernel of \<^verbatim>\<open>apps/matmul_fp/kernel/matmul.c\<close> is C with RISC-V vector inline
  assembly. Its state is modelled explicitly.

  \<^item> Memory is a family of buffers (one per C object), each a list of elements; a
    pointer is a buffer number with an element offset, so that an access outside the
    buffer it points into is a fault rather than a read of a neighbouring object.
    Offsets count elements: the byte strides \<^verbatim>\<open>N << 3\<close> and \<^verbatim>\<open>P << 3\<close> of the
    source are \<open>N\<close> and \<open>P\<close> elements of 8 bytes. Dimensions and offsets are natural
    numbers: the properties below concern \<open>M, N, P \<ge> 1\<close>, and products that index an
    existing buffer do not wrap in \<^verbatim>\<open>int64_t\<close>.
  \<^item> The element type \<open>'a\<close> and the fused multiply-add \<open>fma a b c\<close> (the value
    \<^verbatim>\<open>vfmacc.vf\<close> computes from the scalar \<open>a\<close>, the lane \<open>b\<close> of the source vector and
    the lane \<open>c\<close> of the accumulator) are parameters, so every result below holds for
    whatever rounding the hardware applies.
  \<^item> A vector register group is a function from lane numbers to elements; the
    instructions act on the lanes below \<open>vl\<close> and leave the others alone.
  \<^item> \<^verbatim>\<open>vsetvli\<close> asks the hardware for a vector length; the answer is given by a
    parameter \<open>grant\<close> of the model.
  \<^item> Every memory instruction appends what it accessed to a log: \<open>Fld p\<close> for a scalar
    load, \<open>Vle p n\<close> and \<open>Vse p n\<close> for a vector load and store of \<open>n\<close> elements at \<open>p\<close>.
    An instruction that would leave its buffer returns the access as a fault instead.

  The source's names \<^verbatim>\<open>a_\<close>, \<^verbatim>\<open>b_\<close>, \<^verbatim>\<open>c_\<close>, \<^verbatim>\<open>c__\<close>, \<^verbatim>\<open>p_\<close> are written \<open>a'\<close>, \<open>b'\<close>,
  \<open>c'\<close>, \<open>c''\<close>, \<open>p'\<close>. The repeated instruction groups of \<^verbatim>\<open>matmul_vec_4x4\<close> are the
  definitions \<open>fld4\<close>, \<open>fmacc_fld4\<close> and \<open>fmacc_vse4\<close>; its \<^verbatim>\<open>while\<close> loop is \<open>matmul_loop\<close>,
  and the two \<^verbatim>\<open>for\<close> loops of \<^verbatim>\<open>matmul\<close> are \<open>row_loop\<close> and \<open>col_loop\<close>.
\<close>

type_synonym ptr = "nat \<times> nat"

definition padd :: "ptr \<Rightarrow> nat \<Rightarrow> ptr" where
  "padd p k = (fst p, snd p + k)"

datatype vreg = V0 | V4 | V8 | V12 | V16 | V20

datatype access = Fld ptr | Vle ptr nat | Vse ptr nat

datatype fault = Fault access

record 'a machine =
  heap :: "nat \<Rightarrow> 'a list"
  vl :: nat
  vrf :: "vreg \<Rightarrow> nat \<Rightarrow> 'a"
  trace :: "access list"

type_synonym 'a scalars = "'a \<times> 'a \<times> 'a \<times> 'a"

definition in_bounds :: "'a machine \<Rightarrow> ptr \<Rightarrow> nat \<Rightarrow> bool" where
  "in_bounds st p len = (len = 0 \<or> snd p + len \<le> length (heap st (fst p)))"

text \<open>\<^verbatim>\<open>vsetvli rd, rs1, e64, m4\<close>: request \<open>avl\<close> elements, receive and commit to \<open>grant avl\<close>.\<close>

definition vsetvli :: "(nat \<Rightarrow> nat) \<Rightarrow> nat \<Rightarrow> 'a machine \<Rightarrow> nat \<times> 'a machine" where
  "vsetvli grant avl st = (grant avl, st\<lparr>vl := grant avl\<rparr>)"

text \<open>\<^verbatim>\<open>vle64.v vd, (p)\<close>: load \<open>vl\<close> consecutive elements into the lanes of \<open>vd\<close>.\<close>

definition vle64 :: "vreg \<Rightarrow> ptr \<Rightarrow> 'a machine \<Rightarrow> fault + 'a machine" where
  "vle64 vd p st =
     (if in_bounds st p (vl st)
      then Inr (st\<lparr>vrf := (vrf st)(vd := (\<lambda>j. if j < vl st then heap st (fst p) ! (snd p + j)
                                             else vrf st vd j)),
                   trace := trace st @ [Vle p (vl st)]\<rparr>)
      else Inl (Fault (Vle p (vl st))))"

text \<open>\<^verbatim>\<open>fld ft, (p)\<close>: load one element into a scalar register.\<close>

definition fld :: "ptr \<Rightarrow> 'a machine \<Rightarrow> fault + ('a \<times> 'a machine)" where
  "fld p st =
     (if in_bounds st p 1
      then Inr (heap st (fst p) ! snd p, st\<lparr>trace := trace st @ [Fld p]\<rparr>)
      else Inl (Fault (Fld p)))"

text \<open>\<^verbatim>\<open>vfmacc.vf vd, ft, vs\<close>: \<open>vd[j] := fma ft vs[j] vd[j]\<close> on the lanes below \<open>vl\<close>.\<close>

definition vfmacc_vf :: "('a \<Rightarrow> 'a \<Rightarrow> 'a \<Rightarrow> 'a) \<Rightarrow> vreg \<Rightarrow> 'a \<Rightarrow> vreg \<Rightarrow> 'a machine \<Rightarrow> 'a machine" where
  "vfmacc_vf fma vd t vs st =
     st\<lparr>vrf := (vrf st)(vd := (\<lambda>j. if j < vl st then fma t (vrf st vs j) (vrf st vd j)
                                  else vrf st vd j))\<rparr>"

text \<open>\<^verbatim>\<open>vse64.v vs, (p)\<close>: store the lanes below \<open>vl\<close> of \<open>vs\<close> to consecutive elements.\<close>

definition store_vec :: "'a list \<Rightarrow> nat \<Rightarrow> (nat \<Rightarrow> 'a) \<Rightarrow> nat \<Rightarrow> 'a list" where
  "store_vec xs off v n = take off xs @ map v [0..<n] @ drop (off + n) xs"

definition vse64 :: "vreg \<Rightarrow> ptr \<Rightarrow> 'a machine \<Rightarrow> fault + 'a machine" where
  "vse64 vs p st =
     (if in_bounds st p (vl st)
      then Inr (st\<lparr>heap := (heap st)(fst p := store_vec (heap st (fst p)) (snd p) (vrf st vs) (vl st)),
                   trace := trace st @ [Vse p (vl st)]\<rparr>)
      else Inl (Fault (Vse p (vl st))))"

section \<open>The kernel\<close>

text \<open>\<^verbatim>\<open>matmul_vec_4x4_slice_init\<close> (lines 36-44): four vector loads, one row stride apart.\<close>

definition matmul_vec_4x4_slice_init :: "ptr \<Rightarrow> nat \<Rightarrow> 'a machine \<Rightarrow> fault + 'a machine" where
  "matmul_vec_4x4_slice_init c P st =
     (let ldc = P in
      case vle64 V0 c st of Inl e \<Rightarrow> Inl e | Inr st \<Rightarrow>
      let c = padd c ldc in
      case vle64 V4 c st of Inl e \<Rightarrow> Inl e | Inr st \<Rightarrow>
      let c = padd c ldc in
      case vle64 V8 c st of Inl e \<Rightarrow> Inl e | Inr st \<Rightarrow>
      let c = padd c ldc in
      vle64 V12 c st)"

text \<open>Lines 62-65: the four scalar loads \<open>t0..t3\<close> of one column of the 4-row block of A.\<close>

definition fld4 :: "ptr \<Rightarrow> nat \<Rightarrow> 'a machine \<Rightarrow> fault + ('a scalars \<times> 'a machine)" where
  "fld4 a lda st =
     (case fld a st of Inl e \<Rightarrow> Inl e | Inr (t0, st) \<Rightarrow>
      let a = padd a lda in
      case fld a st of Inl e \<Rightarrow> Inl e | Inr (t1, st) \<Rightarrow>
      let a = padd a lda in
      case fld a st of Inl e \<Rightarrow> Inl e | Inr (t2, st) \<Rightarrow>
      let a = padd a lda in
      case fld a st of Inl e \<Rightarrow> Inl e | Inr (t3, st) \<Rightarrow>
      Inr ((t0, t1, t2, t3), st))"

text \<open>
  Lines 77-84 (with \<open>vs = V16\<close>) and 93-100 (with \<open>vs = V20\<close>): each accumulator takes
  its multiply-add with the vector \<open>vs\<close>, and its scalar is reloaded from the next column.
\<close>

definition fmacc_fld4 ::
  "('a \<Rightarrow> 'a \<Rightarrow> 'a \<Rightarrow> 'a) \<Rightarrow> vreg \<Rightarrow> ptr \<Rightarrow> nat \<Rightarrow> 'a scalars \<Rightarrow> 'a machine
     \<Rightarrow> fault + ('a scalars \<times> 'a machine)" where
  "fmacc_fld4 fma vs a lda t st =
     (case t of (t0, t1, t2, t3) \<Rightarrow>
      let st = vfmacc_vf fma V0 t0 vs st in
      case fld a st of Inl e \<Rightarrow> Inl e | Inr (t0, st) \<Rightarrow>
      let a = padd a lda; st = vfmacc_vf fma V4 t1 vs st in
      case fld a st of Inl e \<Rightarrow> Inl e | Inr (t1, st) \<Rightarrow>
      let a = padd a lda; st = vfmacc_vf fma V8 t2 vs st in
      case fld a st of Inl e \<Rightarrow> Inl e | Inr (t2, st) \<Rightarrow>
      let a = padd a lda; st = vfmacc_vf fma V12 t3 vs st in
      case fld a st of Inl e \<Rightarrow> Inl e | Inr (t3, st) \<Rightarrow>
      Inr ((t0, t1, t2, t3), st))"

text \<open>
  Lines 70-101, the reduction loop. \<open>n = N - 1\<close> is only evaluated after \<open>n < N\<close> held for
  the previous value of \<open>n\<close>, hence with \<open>N \<ge> 1\<close>.
\<close>

function matmul_loop ::
  "('a \<Rightarrow> 'a \<Rightarrow> 'a \<Rightarrow> 'a) \<Rightarrow> ptr \<Rightarrow> nat \<Rightarrow> nat \<Rightarrow> nat \<Rightarrow> ptr \<Rightarrow> 'a scalars \<Rightarrow> 'a machine
     \<Rightarrow> fault + ('a scalars \<times> 'a machine)" where
  "matmul_loop fma a' N P n b t st =
     (if n < N then
        case vle64 V20 b st of Inl e \<Rightarrow> Inl e | Inr st1 \<Rightarrow>
        case fmacc_fld4 fma V16 (padd a' (n + 1)) N t st1 of Inl e \<Rightarrow> Inl e | Inr (t1, st2) \<Rightarrow>
        if n + 1 = N - 1 then Inr (t1, st2) else
        case vle64 V16 (padd b P) st2 of Inl e \<Rightarrow> Inl e | Inr st3 \<Rightarrow>
        case fmacc_fld4 fma V20 (padd a' (n + 2)) N t1 st3 of Inl e \<Rightarrow> Inl e | Inr (t2, st4) \<Rightarrow>
        matmul_loop fma a' N P (n + 2) (padd (padd b P) P) t2 st4
      else Inr (t, st))"
  by pat_completeness auto
termination
  by (relation "measure (\<lambda>(fma, a', N, P, n, b, t, st). N - n)") auto

text \<open>Lines 104-111: the last multiply-add with \<open>V20\<close>, and the four stores.\<close>

definition fmacc_vse4 ::
  "('a \<Rightarrow> 'a \<Rightarrow> 'a \<Rightarrow> 'a) \<Rightarrow> ptr \<Rightarrow> nat \<Rightarrow> 'a scalars \<Rightarrow> 'a machine \<Rightarrow> fault + 'a machine" where
  "fmacc_vse4 fma c ldc t st =
     (case t of (t0, t1, t2, t3) \<Rightarrow>
      let st = vfmacc_vf fma V0 t0 V20 st in
      case vse64 V0 c st of Inl e \<Rightarrow> Inl e | Inr st \<Rightarrow>
      let c = padd c ldc; st = vfmacc_vf fma V4 t1 V20 st in
      case vse64 V4 c st of Inl e \<Rightarrow> Inl e | Inr st \<Rightarrow>
      let c = padd c ldc; st = vfmacc_vf fma V8 t2 V20 st in
      case vse64 V8 c st of Inl e \<Rightarrow> Inl e | Inr st \<Rightarrow>
      let c = padd c ldc; st = vfmacc_vf fma V12 t3 V20 st in
      vse64 V12 c st)"

text \<open>\<^verbatim>\<open>matmul_vec_4x4\<close> (lines 46-112).\<close>

definition matmul_vec_4x4 ::
  "('a \<Rightarrow> 'a \<Rightarrow> 'a \<Rightarrow> 'a) \<Rightarrow> ptr \<Rightarrow> ptr \<Rightarrow> ptr \<Rightarrow> nat \<Rightarrow> nat \<Rightarrow> 'a machine \<Rightarrow> fault + 'a machine" where
  "matmul_vec_4x4 fma c a b N P st =
     (let lda = N; ldb = P; ldc = P; a' = a in
      case vle64 V16 b st of Inl e \<Rightarrow> Inl e | Inr st \<Rightarrow>
      let b = padd b ldb in
      case fld4 a lda st of Inl e \<Rightarrow> Inl e | Inr (t, st) \<Rightarrow>
      case matmul_loop fma a' N P 0 b t st of Inl e \<Rightarrow> Inl e | Inr (t, st) \<Rightarrow>
      fmacc_vse4 fma c ldc t st)"

section \<open>The tiling driver\<close>

text \<open>Lines 24-32: the loop over row groups of height \<open>block_size = 4\<close>.\<close>

function row_loop ::
  "('a \<Rightarrow> 'a \<Rightarrow> 'a \<Rightarrow> 'a) \<Rightarrow> ptr \<Rightarrow> ptr \<Rightarrow> ptr \<Rightarrow> nat \<Rightarrow> nat \<Rightarrow> nat \<Rightarrow> nat \<Rightarrow> 'a machine
     \<Rightarrow> fault + 'a machine" where
  "row_loop fma c' a b' M N P m st =
     (if m < M then
        let a' = padd a (m * N); c'' = padd c' (m * P) in
        case matmul_vec_4x4_slice_init c'' P st of Inl e \<Rightarrow> Inl e | Inr st1 \<Rightarrow>
        case matmul_vec_4x4 fma c'' a' b' N P st1 of Inl e \<Rightarrow> Inl e | Inr st2 \<Rightarrow>
        row_loop fma c' a b' M N P (m + 4) st2
      else Inr st)"
  by pat_completeness auto
termination
  by (relation "measure (\<lambda>(fma, c', a, b', M, N, P, m, st). M - m)") auto

text \<open>
  Lines 14-33: the loop over column chunks. It advances by \<open>block_size_p\<close>, the length
  the hardware granted, and does not return when that is \<open>0\<close>: the result \<open>None\<close>.
\<close>

partial_function (option) col_loop ::
  "(nat \<Rightarrow> nat) \<Rightarrow> ('a \<Rightarrow> 'a \<Rightarrow> 'a \<Rightarrow> 'a) \<Rightarrow> ptr \<Rightarrow> ptr \<Rightarrow> ptr \<Rightarrow> nat \<Rightarrow> nat \<Rightarrow> nat \<Rightarrow> nat \<Rightarrow> nat
     \<Rightarrow> 'a machine \<Rightarrow> (fault + 'a machine) option" where
  "col_loop grant fma c a b M N P block_size_p p st =
     (if p < P then
        let p' = min (P - p) block_size_p;
            st1 = snd (vsetvli grant p' st);
            b' = padd b p;
            c' = padd c p in
        case row_loop fma c' a b' M N P 0 st1 of
          Inl e \<Rightarrow> Some (Inl e)
        | Inr st2 \<Rightarrow> col_loop grant fma c a b M N P block_size_p (p + block_size_p) st2
      else Some (Inr st))"

declare col_loop.simps [code]

text \<open>\<^verbatim>\<open>matmul\<close> (lines 5-34).\<close>

definition matmul ::
  "(nat \<Rightarrow> nat) \<Rightarrow> ('a \<Rightarrow> 'a \<Rightarrow> 'a \<Rightarrow> 'a) \<Rightarrow> ptr \<Rightarrow> ptr \<Rightarrow> ptr \<Rightarrow> nat \<Rightarrow> nat \<Rightarrow> nat \<Rightarrow> 'a machine
     \<Rightarrow> (fault + 'a machine) option" where
  "matmul grant fma c a b M N P st =
     (case vsetvli grant P st of (block_size_p, st0) \<Rightarrow>
        col_loop grant fma c a b M N P block_size_p 0 st0)"

section \<open>Notions used to state the properties\<close>

text \<open>The element \<open>k\<close> places after pointer \<open>p\<close>.\<close>

definition elem :: "'a machine \<Rightarrow> ptr \<Rightarrow> nat \<Rightarrow> 'a" where
  "elem st p k = heap st (fst p) ! (snd p + k)"

text \<open>Accumulator slot \<open>i\<close> of the kernel is the register group \<open>v0, v4, v8, v12\<close>.\<close>

definition acc_reg :: "nat \<Rightarrow> vreg" where
  "acc_reg i = (if i = 0 then V0 else if i = 1 then V4 else if i = 2 then V8 else V12)"

text \<open>The scalar \<open>t0..t3\<close> of row \<open>i\<close>.\<close>

definition scal :: "'a scalars \<Rightarrow> nat \<Rightarrow> 'a" where
  "scal t i = (case t of (t0, t1, t2, t3) \<Rightarrow>
     if i = 0 then t0 else if i = 1 then t1 else if i = 2 then t2 else t3)"

text \<open>
  The reference reduction of the specification: starting from \<open>acc\<close>, the steps
  \<open>acc := fma (x k) (y k) acc\<close> for \<open>k = 0, 1, ..., n - 1\<close> in this order.
\<close>

primrec naive_fma :: "('a \<Rightarrow> 'a \<Rightarrow> 'a \<Rightarrow> 'a) \<Rightarrow> (nat \<Rightarrow> 'a) \<Rightarrow> (nat \<Rightarrow> 'a) \<Rightarrow> 'a \<Rightarrow> nat \<Rightarrow> 'a" where
  "naive_fma fma x y acc 0 = acc"
| "naive_fma fma x y acc (Suc n) = fma (x n) (y n) (naive_fma fma x y acc n)"

text \<open>Exact arithmetic: the multiply-add without rounding.\<close>

definition fma_exact :: "'a::semiring_0 \<Rightarrow> 'a \<Rightarrow> 'a \<Rightarrow> 'a" where
  "fma_exact a b c = a * b + c"

text \<open>
  What the vector extension promises of \<^verbatim>\<open>vsetvli\<close> on a machine whose longest vector
  (at this element width and grouping) has \<open>vlmax\<close> elements: a request that fits is
  granted as it is, a larger one is granted at least half of it, none exceeds \<open>vlmax\<close>,
  and a request of twice \<open>vlmax\<close> or more is granted \<open>vlmax\<close>.
\<close>

definition rvv_grant :: "nat \<Rightarrow> (nat \<Rightarrow> nat) \<Rightarrow> bool" where
  "rvv_grant vlmax grant \<longleftrightarrow>
     0 < vlmax \<and>
     (\<forall>avl. (avl \<le> vlmax \<longrightarrow> grant avl = avl) \<and>
            (avl < 2 * vlmax \<longrightarrow> avl \<le> 2 * grant avl) \<and>
            grant avl \<le> vlmax \<and>
            (2 * vlmax \<le> avl \<longrightarrow> grant avl = vlmax))"

text \<open>
  A machine for the examples: buffer 0 holds C, buffer 1 holds A, buffer 2 holds B, over
  the integers with exact arithmetic.
\<close>

definition ex_machine :: "int list \<Rightarrow> int list \<Rightarrow> int list \<Rightarrow> nat \<Rightarrow> int machine" where
  "ex_machine C A B v =
     \<lparr>heap = (\<lambda>_. [])(0 := C, 1 := A, 2 := B), vl = v, vrf = (\<lambda>_ _. 0), trace = []\<rparr>"

text \<open>
  The loads a reduction over \<open>N\<close> steps may issue: the scalar \<open>A[i][k]\<close> of one of the
  four rows, or the vector of row \<open>k\<close> of B, with \<open>k < N\<close>.
\<close>

definition red_load :: "ptr \<Rightarrow> ptr \<Rightarrow> nat \<Rightarrow> nat \<Rightarrow> nat \<Rightarrow> access \<Rightarrow> bool" where
  "red_load a b N P v e \<longleftrightarrow>
     (\<exists>i<4. \<exists>k<N. e = Fld (padd a (i * N + k))) \<or> (\<exists>k<N. e = Vle (padd b (k * P)) v)"

text \<open>
  \<open>traced Q st st'\<close>: the log of \<open>st'\<close> extends the log of \<open>st\<close>, and every access
  added satisfies \<open>Q\<close>.
\<close>

definition traced :: "(access \<Rightarrow> bool) \<Rightarrow> 'a machine \<Rightarrow> 'a machine \<Rightarrow> bool" where
  "traced Q st st' \<longleftrightarrow> (\<exists>tr. trace st' = trace st @ tr \<and> (\<forall>e\<in>set tr. Q e))"

text \<open>
  The accesses that belong to the column chunk at offset \<open>p\<close> of width \<open>v\<close>: a scalar
  \<open>A[i][k]\<close>, or \<open>v\<close> elements of a row of B or of C starting at column \<open>p\<close>, with
  \<open>i < M\<close> and \<open>k < N\<close>; only C is stored to.
\<close>

definition chunk_access ::
  "ptr \<Rightarrow> ptr \<Rightarrow> ptr \<Rightarrow> nat \<Rightarrow> nat \<Rightarrow> nat \<Rightarrow> nat \<Rightarrow> nat \<Rightarrow> access \<Rightarrow> bool" where
  "chunk_access a b c M N P p v e \<longleftrightarrow>
     (\<exists>i<M. \<exists>k<N. e = Fld (padd a (i * N + k))) \<or>
     (\<exists>k<N. e = Vle (padd b (k * P + p)) v) \<or>
     (\<exists>i<M. e = Vle (padd c (i * P + p)) v \<or> e = Vse (padd c (i * P + p)) v)"

text \<open>
  The accesses of a whole product with first granted length \<open>vl0\<close>: those of a chunk whose
  offset \<open>p < P\<close> is a multiple of \<open>vl0\<close> and whose width is \<open>min (P - p) vl0\<close>.
\<close>

definition mm_access ::
  "ptr \<Rightarrow> ptr \<Rightarrow> ptr \<Rightarrow> nat \<Rightarrow> nat \<Rightarrow> nat \<Rightarrow> nat \<Rightarrow> access \<Rightarrow> bool" where
  "mm_access a b c M N P vl0 e \<longleftrightarrow>
     (\<exists>p<P. vl0 dvd p \<and> chunk_access a b c M N P p (min (P - p) vl0) e)"

text \<open>
  \<open>frame_ok cb st st'\<close>: from \<open>st\<close> to \<open>st'\<close> every buffer other than \<open>cb\<close> keeps its
  contents, and every buffer keeps its size.
\<close>

definition frame_ok :: "nat \<Rightarrow> 'a machine \<Rightarrow> 'a machine \<Rightarrow> bool" where
  "frame_ok cb st st' \<longleftrightarrow>
     (\<forall>blk. blk \<noteq> cb \<longrightarrow> heap st' blk = heap st blk) \<and>
     (\<forall>blk. length (heap st' blk) = length (heap st blk))"

text \<open>
  \<open>within base sz q n\<close>: the \<open>n\<close> elements at \<open>q\<close> lie among the \<open>sz\<close> elements at
  \<open>base\<close>. \<open>in_matrices\<close>: a scalar load lies in the \<open>M*N\<close> elements of A, a vector load
  in the \<open>N*P\<close> elements of B or the \<open>M*P\<close> elements of C, a store in those of C.
\<close>

definition within :: "ptr \<Rightarrow> nat \<Rightarrow> ptr \<Rightarrow> nat \<Rightarrow> bool" where
  "within base sz q n \<longleftrightarrow>
     fst q = fst base \<and> snd base \<le> snd q \<and> snd q + n \<le> snd base + sz"

definition in_matrices :: "ptr \<Rightarrow> ptr \<Rightarrow> ptr \<Rightarrow> nat \<Rightarrow> nat \<Rightarrow> nat \<Rightarrow> access \<Rightarrow> bool" where
  "in_matrices a b c M N P e =
     (case e of
        Fld q \<Rightarrow> within a (M * N) q 1
      | Vle q n \<Rightarrow> within b (N * P) q n \<or> within c (M * P) q n
      | Vse q n \<Rightarrow> within c (M * P) q n)"

text \<open>
  \<open>chunk_cols b c P vl0 e\<close>: if \<open>e\<close> is a vector access, it starts in some row of B or C at
  a column \<open>p < P\<close> that is a multiple of \<open>vl0\<close> and has exactly \<open>min (P - p) vl0\<close>
  elements, so that it covers the columns \<open>p, ..., p + min (P - p) vl0 - 1\<close>, all below \<open>P\<close>.
\<close>

definition chunk_cols :: "ptr \<Rightarrow> ptr \<Rightarrow> nat \<Rightarrow> nat \<Rightarrow> access \<Rightarrow> bool" where
  "chunk_cols b c P vl0 e \<longleftrightarrow>
     (\<forall>q n. e = Vle q n \<or> e = Vse q n \<longrightarrow>
        (\<exists>p r. p < P \<and> vl0 dvd p \<and> n = min (P - p) vl0 \<and>
           (q = padd b (r * P + p) \<or> q = padd c (r * P + p))))"

section \<open>Doubles with integer values\<close>

text \<open>
  The properties below are proved for an arbitrary element type and multiply-add. Where an
  example depends on rounding or on the special values of binary64, it is run on this
  fragment of the doubles: the doubles whose value is an integer (\<open>Fin n\<close> is the double of
  value \<open>n\<close>; the zero is \<open>+0.0\<close>, and \<open>-0.0\<close> is not represented), the two infinities and
  NaN.
\<close>

datatype dbl = Fin int | PInf | NInf | NaN

text \<open>\<open>excess x\<close>: by how many bits \<open>x \<ge> 0\<close> is longer than a significand of 53 bits.\<close>

function excess :: "int \<Rightarrow> nat" where
  "excess x = (if x < 2 ^ 53 then 0 else Suc (excess (x div 2)))"
  by pat_completeness auto
termination
  by (relation "measure nat") auto

text \<open>
  Rounding to the nearest integer that has a significand of 53 bits, a tie going to the even
  significand: \<open>q\<close> is the significand below \<open>x\<close> and \<open>r\<close> what \<open>x\<close> has beyond it.
\<close>

definition rne53 :: "int \<Rightarrow> int" where
  "rne53 x =
     (let s = 2 ^ excess \<bar>x\<bar>; q = x div s; r = x mod s in
      if 2 * r < s then q * s
      else if s < 2 * r then (q + 1) * s
      else if even q then q * s else (q + 1) * s)"

text \<open>A rounded value of magnitude \<open>2 ^ 1024\<close> or more overflows to an infinity.\<close>

definition round_dbl :: "int \<Rightarrow> dbl" where
  "round_dbl x =
     (let y = rne53 x in
      if 2 ^ 1024 \<le> y then PInf else if y \<le> - (2 ^ 1024) then NInf else Fin y)"

text \<open>The product, which a fused multiply-add does not round; zero times an infinity is NaN.\<close>

fun mul_dbl :: "dbl \<Rightarrow> dbl \<Rightarrow> dbl" where
  "mul_dbl NaN y = NaN"
| "mul_dbl x NaN = NaN"
| "mul_dbl (Fin x) (Fin y) = Fin (x * y)"
| "mul_dbl (Fin x) PInf = (if x = 0 then NaN else if 0 < x then PInf else NInf)"
| "mul_dbl (Fin x) NInf = (if x = 0 then NaN else if 0 < x then NInf else PInf)"
| "mul_dbl PInf (Fin y) = (if y = 0 then NaN else if 0 < y then PInf else NInf)"
| "mul_dbl NInf (Fin y) = (if y = 0 then NaN else if 0 < y then NInf else PInf)"
| "mul_dbl PInf PInf = PInf"
| "mul_dbl PInf NInf = NInf"
| "mul_dbl NInf PInf = NInf"
| "mul_dbl NInf NInf = PInf"

text \<open>
  The addend joins the product and the sum is rounded once; infinities of opposite signs
  give NaN.
\<close>

fun add_dbl :: "dbl \<Rightarrow> dbl \<Rightarrow> dbl" where
  "add_dbl NaN c = NaN"
| "add_dbl p NaN = NaN"
| "add_dbl (Fin p) (Fin c) = round_dbl (p + c)"
| "add_dbl (Fin p) c = c"
| "add_dbl PInf NInf = NaN"
| "add_dbl NInf PInf = NaN"
| "add_dbl p c = p"

text \<open>The value \<open>a * b + c\<close> that \<^verbatim>\<open>vfmacc.vf\<close> leaves in a lane, on these doubles.\<close>

definition fma_dbl :: "dbl \<Rightarrow> dbl \<Rightarrow> dbl \<Rightarrow> dbl" where
  "fma_dbl a b c = add_dbl (mul_dbl a b) c"

text \<open>The zero of the doubles is \<open>+0.0\<close>.\<close>

instantiation dbl :: zero
begin
definition zero_dbl :: dbl where "zero_dbl = Fin 0"
instance ..
end

text \<open>A machine of doubles, with the buffers of C, A and B numbered as in \<open>ex_machine\<close>.\<close>

definition dbl_machine :: "dbl list \<Rightarrow> dbl list \<Rightarrow> dbl list \<Rightarrow> nat \<Rightarrow> dbl machine" where
  "dbl_machine C A B v =
     \<lparr>heap = (\<lambda>_. [])(0 := C, 1 := A, 2 := B), vl = v, vrf = (\<lambda>_ _. Fin 0), trace = []\<rparr>"

text \<open>
  \<open>row_vecs b c P v e\<close>: if \<open>e\<close> is a vector access, it has \<open>v\<close> elements and starts a whole
  number of row strides \<open>P\<close> after \<open>b\<close> or after \<open>c\<close>.
\<close>

definition row_vecs :: "ptr \<Rightarrow> ptr \<Rightarrow> nat \<Rightarrow> nat \<Rightarrow> access \<Rightarrow> bool" where
  "row_vecs b c P v e \<longleftrightarrow>
     (\<forall>q n. e = Vle q n \<or> e = Vse q n \<longrightarrow>
        n = v \<and> (\<exists>r. q = padd b (r * P) \<or> q = padd c (r * P)))"

section \<open>Single instructions\<close>

lemma lt4: "(i::nat) < 4 \<longleftrightarrow> i = 0 \<or> i = 1 \<or> i = 2 \<or> i = 3"
  by auto

lemma all_lt4: "(\<forall>i<4::nat. Q i) \<longleftrightarrow> Q 0 \<and> Q 1 \<and> Q 2 \<and> Q 3"
  by (auto simp: lt4)

lemma mult_3: "3 * (n::nat) = n + n + n"
  by simp

lemma padd_simps [simp]:
  "fst (padd p k) = fst p" "snd (padd p k) = snd p + k"
  "padd (padd p k) l = padd p (k + l)" "padd p 0 = p"
  by (simp_all add: padd_def)

lemma in_bounds_simps [simp]:
  "in_bounds (st\<lparr>vrf := r\<rparr>) p len = in_bounds st p len"
  "in_bounds (st\<lparr>trace := tr\<rparr>) p len = in_bounds st p len"
  "in_bounds (st\<lparr>vl := v\<rparr>) p len = in_bounds st p len"
  by (simp_all add: in_bounds_def)

lemma elem_simps [simp]:
  "elem (st\<lparr>vrf := r\<rparr>) p k = elem st p k"
  "elem (st\<lparr>trace := tr\<rparr>) p k = elem st p k"
  "elem (st\<lparr>vl := v\<rparr>) p k = elem st p k"
  "elem st (padd p k) l = elem st p (k + l)"
  by (simp_all add: elem_def add.assoc)

lemma vle64_ok:
  "in_bounds st p (vl st) \<Longrightarrow>
   vle64 vd p st =
     Inr (st\<lparr>vrf := (vrf st)(vd := (\<lambda>j. if j < vl st then elem st p j else vrf st vd j)),
              trace := trace st @ [Vle p (vl st)]\<rparr>)"
  unfolding elem_def by (simp add: vle64_def)

lemma slice_init_ok:
  assumes "\<forall>i<4. in_bounds st (padd c (i * P)) (vl st)"
  shows "\<exists>st'. matmul_vec_4x4_slice_init c P st = Inr st' \<and> heap st' = heap st \<and> vl st' = vl st
           \<and> (\<forall>i<4. \<forall>j<vl st. vrf st' (acc_reg i) j = elem st c (i * P + j))
           \<and> trace st' = trace st @ map (\<lambda>i. Vle (padd c (i * P)) (vl st)) [0, 1, 2, 3]"
  using assms
  by (simp add: all_lt4 matmul_vec_4x4_slice_init_def vle64_ok acc_reg_def Let_def
      mult_2 mult_3 add.assoc)

lemma in_bounds1: "in_bounds st p 1 \<longleftrightarrow> snd p < length (heap st (fst p))"
  by (auto simp: in_bounds_def)

lemma fld_ok:
  "snd p < length (heap st (fst p)) \<Longrightarrow>
   fld p st = Inr (elem st p 0, st\<lparr>trace := trace st @ [Fld p]\<rparr>)"
  by (simp add: fld_def elem_def in_bounds_def)

lemma vfmacc_vf_fields [simp]:
  "heap (vfmacc_vf fma vd t vs st) = heap st"
  "vl (vfmacc_vf fma vd t vs st) = vl st"
  "trace (vfmacc_vf fma vd t vs st) = trace st"
  "vrf (vfmacc_vf fma vd t vs st) r j =
     (if r = vd \<and> j < vl st then fma t (vrf st vs j) (vrf st vd j) else vrf st r j)"
  by (simp_all add: vfmacc_vf_def)

lemma in_bounds_vfmacc [simp]:
  "in_bounds (vfmacc_vf fma vd t vs st) p len = in_bounds st p len"
  by (simp add: in_bounds_def)

lemma elem_vfmacc [simp]: "elem (vfmacc_vf fma vd t vs st) p k = elem st p k"
  by (simp add: elem_def)

lemma scal_simps [simp]:
  "scal (t0, t1, t2, t3) 0 = t0" "scal (t0, t1, t2, t3) (Suc 0) = t1"
  "scal (t0, t1, t2, t3) 2 = t2" "scal (t0, t1, t2, t3) 3 = t3"
  by (simp_all add: scal_def)

lemma acc_reg_simps [simp]:
  "acc_reg 0 = V0" "acc_reg (Suc 0) = V4" "acc_reg 2 = V8" "acc_reg 3 = V12"
  by (simp_all add: acc_reg_def)

lemma fld4_ok:
  assumes "snd a + 3 * lda < length (heap st (fst a))"
  shows "\<exists>t' st'. fld4 a lda st = Inr (t', st') \<and> heap st' = heap st \<and> vl st' = vl st
           \<and> vrf st' = vrf st
           \<and> (\<forall>i<4. scal t' i = elem st a (i * lda))
           \<and> trace st' = trace st @ map (\<lambda>i. Fld (padd a (i * lda))) [0, 1, 2, 3]"
  using assms
  by (simp add: fld4_def fld_ok all_lt4 Let_def mult_2 mult_3 add.assoc)

lemma fmacc_fld4_ok:
  assumes "snd a + 3 * lda < length (heap st (fst a))" and "vs = V16 \<or> vs = V20"
  shows "\<exists>t' st'. fmacc_fld4 fma vs a lda t st = Inr (t', st') \<and> heap st' = heap st
           \<and> vl st' = vl st \<and> vrf st' V16 = vrf st V16 \<and> vrf st' V20 = vrf st V20
           \<and> (\<forall>i<4. scal t' i = elem st a (i * lda))
           \<and> (\<forall>i<4. \<forall>j<vl st. vrf st' (acc_reg i) j = fma (scal t i) (vrf st vs j) (vrf st (acc_reg i) j))
           \<and> trace st' = trace st @ map (\<lambda>i. Fld (padd a (i * lda))) [0, 1, 2, 3]"
proof (cases t)
  case (fields t0 t1 t2 t3)
  from assms show ?thesis unfolding fields
    by (auto simp add: fmacc_fld4_def fld_ok all_lt4 Let_def mult_2 mult_3 add.assoc fun_eq_iff)
qed

lemma store_vec_0 [simp]: "store_vec xs off v 0 = xs"
  by (simp add: store_vec_def)

lemma length_store_vec [simp]:
  "n = 0 \<or> off + n \<le> length xs \<Longrightarrow> length (store_vec xs off v n) = length xs"
  by (auto simp: store_vec_def)

lemma nth_store_vec_aux:
  assumes le: "off + n \<le> length xs" and "idx < length xs"
  shows "store_vec xs off v n ! idx = (if off \<le> idx \<and> idx < off + n then v (idx - off) else xs ! idx)"
proof -
  have l1: "min (length xs) off = off" using le by simp
  consider "idx < off" | "off \<le> idx" "idx < off + n" | "off + n \<le> idx" by linarith
  then show ?thesis
  proof cases
    case 1
    then show ?thesis using assms by (simp add: store_vec_def nth_append)
  next
    case 2
    then have "idx - off < n" by simp
    then show ?thesis using 2 by (simp add: store_vec_def nth_append l1)
  next
    case 3
    then have a: "\<not> idx < off" "\<not> idx - off < n" by simp_all
    have "off + n + (idx - off - n) = idx" using 3 by simp
    then have "drop (off + n) xs ! (idx - off - n) = xs ! idx"
      using le by simp
    then show ?thesis using 3 a by (simp add: store_vec_def nth_append l1)
  qed
qed

lemma nth_store_vec:
  assumes "n = 0 \<or> off + n \<le> length xs" and "idx < length xs"
  shows "store_vec xs off v n ! idx = (if off \<le> idx \<and> idx < off + n then v (idx - off) else xs ! idx)"
proof (cases "n = 0")
  case True
  then show ?thesis by auto
next
  case False
  with assms have "off + n \<le> length xs" by simp
  then show ?thesis using assms(2) by (rule nth_store_vec_aux)
qed

lemma vse64_ok:
  "in_bounds st p (vl st) \<Longrightarrow>
   vse64 vs p st =
     Inr (st\<lparr>heap := (heap st)(fst p := store_vec (heap st (fst p)) (snd p) (vrf st vs) (vl st)),
              trace := trace st @ [Vse p (vl st)]\<rparr>)"
  by (simp add: vse64_def)

lemma not_in_range: "(\<forall>j<v. idx \<noteq> base + j) \<longleftrightarrow> \<not> (base \<le> idx \<and> idx < base + (v::nat))"
proof
  assume a: "\<forall>j<v. idx \<noteq> base + j"
  show "\<not> (base \<le> idx \<and> idx < base + v)"
  proof
    assume "base \<le> idx \<and> idx < base + v"
    then have "idx - base < v" "idx = base + (idx - base)" by auto
    with a show False by blast
  qed
next
  assume "\<not> (base \<le> idx \<and> idx < base + v)"
  then show "\<forall>j<v. idx \<noteq> base + j" by auto
qed

lemma in_bounds_heap_upd:
  "length xs = length (heap st blk) \<Longrightarrow> in_bounds (st\<lparr>heap := (heap st)(blk := xs)\<rparr>) p n = in_bounds st p n"
  by (simp add: in_bounds_def)


lemma fmacc_vse_step:
  assumes "in_bounds st p (vl st)"
  shows "\<exists>st'. vse64 vd p (vfmacc_vf fma vd t V20 st) = Inr st' \<and> vl st' = vl st
     \<and> (\<forall>r. r \<noteq> vd \<longrightarrow> vrf st' r = vrf st r)
     \<and> (\<forall>blk. blk \<noteq> fst p \<longrightarrow> heap st' blk = heap st blk)
     \<and> length (heap st' (fst p)) = length (heap st (fst p))
     \<and> (\<forall>j<vl st. heap st' (fst p) ! (snd p + j) = fma t (vrf st V20 j) (vrf st vd j))
     \<and> (\<forall>idx<length (heap st (fst p)). \<not> (snd p \<le> idx \<and> idx < snd p + vl st)
           \<longrightarrow> heap st' (fst p) ! idx = heap st (fst p) ! idx)
     \<and> trace st' = trace st @ [Vse p (vl st)]"
proof -
  let ?s = "vfmacc_vf fma vd t V20 st"
  have ib: "in_bounds ?s p (vl ?s)" using assms by simp
  have len: "vl st = 0 \<or> snd p + vl st \<le> length (heap st (fst p))"
    using assms by (simp add: in_bounds_def)
  show ?thesis
    unfolding vse64_ok [OF ib] using len
    by (auto simp: nth_store_vec fun_eq_iff)
qed


lemma fmacc_vse4_ok:
  assumes bnd: "\<forall>i<4. in_bounds st (padd c (i * ldc)) (vl st)" and le: "vl st \<le> ldc"
  shows "\<exists>st'. fmacc_vse4 fma c ldc t st = Inr st' \<and> vl st' = vl st
     \<and> (\<forall>blk. blk \<noteq> fst c \<longrightarrow> heap st' blk = heap st blk)
     \<and> length (heap st' (fst c)) = length (heap st (fst c))
     \<and> (\<forall>i<4. \<forall>j<vl st. elem st' c (i * ldc + j) = fma (scal t i) (vrf st V20 j) (vrf st (acc_reg i) j))
     \<and> (\<forall>idx<length (heap st (fst c)). (\<forall>i<4. \<forall>j<vl st. idx \<noteq> snd c + i * ldc + j)
           \<longrightarrow> heap st' (fst c) ! idx = heap st (fst c) ! idx)
     \<and> trace st' = trace st @ map (\<lambda>i. Vse (padd c (i * ldc)) (vl st)) [0, 1, 2, 3]"
proof (cases t)
  case (fields t0 t1 t2 t3)
  let ?H = "heap st (fst c)"
  let ?v = "vl st"
  let ?o = "snd c"
  from bnd have b0: "in_bounds st c ?v" and b1: "in_bounds st (padd c ldc) ?v"
    and b2: "in_bounds st (padd c (2 * ldc)) ?v" and b3: "in_bounds st (padd c (3 * ldc)) ?v"
    by (simp_all add: all_lt4)
  from fmacc_vse_step [OF b0, of V0 fma t0] obtain s1 where
    e1: "vse64 V0 c (vfmacc_vf fma V0 t0 V20 st) = Inr s1" and
    s1: "vl s1 = ?v" "\<forall>r. r \<noteq> V0 \<longrightarrow> vrf s1 r = vrf st r"
      "\<forall>blk. blk \<noteq> fst c \<longrightarrow> heap s1 blk = heap st blk"
      "length (heap s1 (fst c)) = length ?H"
      "\<forall>j<?v. heap s1 (fst c) ! (?o + j) = fma t0 (vrf st V20 j) (vrf st V0 j)"
      "\<forall>idx<length ?H. \<not> (?o \<le> idx \<and> idx < ?o + ?v) \<longrightarrow> heap s1 (fst c) ! idx = ?H ! idx"
      "trace s1 = trace st @ [Vse c ?v]"
    by blast
  have b1': "in_bounds s1 (padd c ldc) (vl s1)"
    using b1 s1(1,4) by (simp add: in_bounds_def)
  from fmacc_vse_step [OF b1', of V4 fma t1] obtain s2 where
    e2: "vse64 V4 (padd c ldc) (vfmacc_vf fma V4 t1 V20 s1) = Inr s2" and
    s2: "vl s2 = vl s1" "\<forall>r. r \<noteq> V4 \<longrightarrow> vrf s2 r = vrf s1 r"
      "\<forall>blk. blk \<noteq> fst (padd c ldc) \<longrightarrow> heap s2 blk = heap s1 blk"
      "length (heap s2 (fst (padd c ldc))) = length (heap s1 (fst (padd c ldc)))"
      "\<forall>j<vl s1. heap s2 (fst (padd c ldc)) ! (snd (padd c ldc) + j) = fma t1 (vrf s1 V20 j) (vrf s1 V4 j)"
      "\<forall>idx<length (heap s1 (fst (padd c ldc))). \<not> (snd (padd c ldc) \<le> idx \<and> idx < snd (padd c ldc) + vl s1)
          \<longrightarrow> heap s2 (fst (padd c ldc)) ! idx = heap s1 (fst (padd c ldc)) ! idx"
      "trace s2 = trace s1 @ [Vse (padd c ldc) (vl s1)]"
    by blast
  have b2': "in_bounds s2 (padd c (2 * ldc)) (vl s2)"
    using b2 s1(1,4) s2(1,4) by (simp add: in_bounds_def)
  from fmacc_vse_step [OF b2', of V8 fma t2] obtain s3 where
    e3: "vse64 V8 (padd c (2 * ldc)) (vfmacc_vf fma V8 t2 V20 s2) = Inr s3" and
    s3: "vl s3 = vl s2" "\<forall>r. r \<noteq> V8 \<longrightarrow> vrf s3 r = vrf s2 r"
      "\<forall>blk. blk \<noteq> fst (padd c (2 * ldc)) \<longrightarrow> heap s3 blk = heap s2 blk"
      "length (heap s3 (fst (padd c (2 * ldc)))) = length (heap s2 (fst (padd c (2 * ldc))))"
      "\<forall>j<vl s2. heap s3 (fst (padd c (2 * ldc))) ! (snd (padd c (2 * ldc)) + j) = fma t2 (vrf s2 V20 j) (vrf s2 V8 j)"
      "\<forall>idx<length (heap s2 (fst (padd c (2 * ldc)))). \<not> (snd (padd c (2 * ldc)) \<le> idx \<and> idx < snd (padd c (2 * ldc)) + vl s2)
          \<longrightarrow> heap s3 (fst (padd c (2 * ldc))) ! idx = heap s2 (fst (padd c (2 * ldc))) ! idx"
      "trace s3 = trace s2 @ [Vse (padd c (2 * ldc)) (vl s2)]"
    by blast
  have b3': "in_bounds s3 (padd c (3 * ldc)) (vl s3)"
    using b3 s1(1,4) s2(1,4) s3(1,4) by (simp add: in_bounds_def)
  from fmacc_vse_step [OF b3', of V12 fma t3] obtain s4 where
    e4: "vse64 V12 (padd c (3 * ldc)) (vfmacc_vf fma V12 t3 V20 s3) = Inr s4" and
    s4: "vl s4 = vl s3" "\<forall>r. r \<noteq> V12 \<longrightarrow> vrf s4 r = vrf s3 r"
      "\<forall>blk. blk \<noteq> fst (padd c (3 * ldc)) \<longrightarrow> heap s4 blk = heap s3 blk"
      "length (heap s4 (fst (padd c (3 * ldc)))) = length (heap s3 (fst (padd c (3 * ldc))))"
      "\<forall>j<vl s3. heap s4 (fst (padd c (3 * ldc))) ! (snd (padd c (3 * ldc)) + j) = fma t3 (vrf s3 V20 j) (vrf s3 V12 j)"
      "\<forall>idx<length (heap s3 (fst (padd c (3 * ldc)))). \<not> (snd (padd c (3 * ldc)) \<le> idx \<and> idx < snd (padd c (3 * ldc)) + vl s3)
          \<longrightarrow> heap s4 (fst (padd c (3 * ldc))) ! idx = heap s3 (fst (padd c (3 * ldc))) ! idx"
      "trace s4 = trace s3 @ [Vse (padd c (3 * ldc)) (vl s3)]"
    by blast
  have run: "fmacc_vse4 fma c ldc t st = Inr s4"
    unfolding fields fmacc_vse4_def Let_def
    by (simp only: e1 sum.case e2 e3 e4 prod.case padd_simps mult_2 mult_3
        e3 [unfolded mult_2] e4 [unfolded mult_3])
  have vls: "vl s1 = ?v" "vl s2 = ?v" "vl s3 = ?v" "vl s4 = ?v"
    using s1(1) s2(1) s3(1) s4(1) by simp_all
  have lens: "length (heap s1 (fst c)) = length ?H" "length (heap s2 (fst c)) = length ?H"
    "length (heap s3 (fst c)) = length ?H" "length (heap s4 (fst c)) = length ?H"
    using s1(4) s2(4) s3(4) s4(4) by simp_all
  have regs: "vrf s1 V20 = vrf st V20" "vrf s2 V20 = vrf st V20" "vrf s3 V20 = vrf st V20"
    "vrf s1 V4 = vrf st V4" "vrf s2 V8 = vrf st V8" "vrf s3 V12 = vrf st V12"
    using s1(2) s2(2) s3(2) by simp_all
  have other: "\<forall>blk. blk \<noteq> fst c \<longrightarrow> heap s4 blk = heap st blk"
    using s1(3) s2(3) s3(3) s4(3) by simp
  have w0: "\<forall>j<?v. heap s1 (fst c) ! (?o + j) = fma t0 (vrf st V20 j) (vrf st V0 j)"
    by (rule s1(5))
  have w1: "\<forall>j<?v. heap s2 (fst c) ! (?o + ldc + j) = fma t1 (vrf st V20 j) (vrf st V4 j)"
    using s2(5) by (simp add: vls regs)
  have w2: "\<forall>j<?v. heap s3 (fst c) ! (?o + 2 * ldc + j) = fma t2 (vrf st V20 j) (vrf st V8 j)"
    using s3(5) by (simp add: vls regs)
  have w3: "\<forall>j<?v. heap s4 (fst c) ! (?o + 3 * ldc + j) = fma t3 (vrf st V20 j) (vrf st V12 j)"
    using s4(5) by (simp add: vls regs)
  have k0: "\<And>idx. idx < length ?H \<Longrightarrow> idx < ?o \<or> ?o + ?v \<le> idx \<Longrightarrow> heap s1 (fst c) ! idx = ?H ! idx"
    using s1(6) by auto
  have k1: "\<And>idx. idx < length ?H \<Longrightarrow> idx < ?o + ldc \<or> ?o + ldc + ?v \<le> idx
      \<Longrightarrow> heap s2 (fst c) ! idx = heap s1 (fst c) ! idx"
    using s2(6) by (auto simp: vls lens)
  have k2: "\<And>idx. idx < length ?H \<Longrightarrow> idx < ?o + 2 * ldc \<or> ?o + 2 * ldc + ?v \<le> idx
      \<Longrightarrow> heap s3 (fst c) ! idx = heap s2 (fst c) ! idx"
    using s3(6) by (auto simp: vls lens)
  have k3: "\<And>idx. idx < length ?H \<Longrightarrow> idx < ?o + 3 * ldc \<or> ?o + 3 * ldc + ?v \<le> idx
      \<Longrightarrow> heap s4 (fst c) ! idx = heap s3 (fst c) ! idx"
    using s4(6) by (auto simp: vls lens)
  have vals: "\<forall>i<4. \<forall>j<?v. elem s4 c (i * ldc + j) = fma (scal t i) (vrf st V20 j) (vrf st (acc_reg i) j)"
  proof (intro allI impI)
    fix i j assume i: "i < (4::nat)" and j: "j < ?v"
    then have v0: "?v \<noteq> 0" by simp
    with b3 have top: "?o + 3 * ldc + ?v \<le> length ?H" by (simp add: in_bounds_def)
    from i consider "i = 0" | "i = 1" | "i = 2" | "i = 3" by (auto simp: lt4)
    then show "elem s4 c (i * ldc + j) = fma (scal t i) (vrf st V20 j) (vrf st (acc_reg i) j)"
    proof cases
      case 1
      have l: "?o + j < length ?H" using top j by simp
      have "heap s4 (fst c) ! (?o + j) = heap s3 (fst c) ! (?o + j)"
        using k3 [OF l] j le by simp
      also have "\<dots> = heap s2 (fst c) ! (?o + j)" using k2 [OF l] j le by simp
      also have "\<dots> = heap s1 (fst c) ! (?o + j)" using k1 [OF l] j le by simp
      finally show ?thesis using w0 j by (simp add: 1 elem_def fields)
    next
      case 2
      have l: "?o + ldc + j < length ?H" using top j by simp
      have "heap s4 (fst c) ! (?o + ldc + j) = heap s3 (fst c) ! (?o + ldc + j)"
        using k3 [OF l] j le by simp
      also have "\<dots> = heap s2 (fst c) ! (?o + ldc + j)" using k2 [OF l] j le by simp
      finally show ?thesis using w1 j by (simp add: 2 elem_def fields add.assoc)
    next
      case 3
      have l: "?o + 2 * ldc + j < length ?H" using top j by simp
      have "heap s4 (fst c) ! (?o + 2 * ldc + j) = heap s3 (fst c) ! (?o + 2 * ldc + j)"
        using k3 [OF l] j le by simp
      then show ?thesis using w2 j by (simp add: 3 elem_def fields add.assoc)
    next
      case 4
      show ?thesis using w3 j by (simp add: 4 elem_def fields add.assoc)
    qed
  qed
  have frame: "\<forall>idx<length ?H. (\<forall>i<4. \<forall>j<?v. idx \<noteq> ?o + i * ldc + j)
           \<longrightarrow> heap s4 (fst c) ! idx = ?H ! idx"
  proof (intro allI impI)
    fix idx assume idx: "idx < length ?H" and ne: "\<forall>i<4. \<forall>j<?v. idx \<noteq> ?o + i * ldc + j"
    from ne have r: "\<not> (?o \<le> idx \<and> idx < ?o + ?v)" "\<not> (?o + ldc \<le> idx \<and> idx < ?o + ldc + ?v)"
      "\<not> (?o + 2 * ldc \<le> idx \<and> idx < ?o + 2 * ldc + ?v)"
      "\<not> (?o + 3 * ldc \<le> idx \<and> idx < ?o + 3 * ldc + ?v)"
      unfolding all_lt4 by (simp_all add: not_in_range)
    have "heap s4 (fst c) ! idx = heap s3 (fst c) ! idx" using k3 [OF idx] r(4) by linarith
    also have "\<dots> = heap s2 (fst c) ! idx" using k2 [OF idx] r(3) by linarith
    also have "\<dots> = heap s1 (fst c) ! idx" using k1 [OF idx] r(2) by linarith
    also have "\<dots> = ?H ! idx" using k0 [OF idx] r(1) by linarith
    finally show "heap s4 (fst c) ! idx = ?H ! idx" .
  qed
  have tr: "trace s4 = trace st @ map (\<lambda>i. Vse (padd c (i * ldc)) ?v) [0, 1, 2, 3]"
    using s1(7) s2(7) s3(7) s4(7) by (simp add: vls)
  show ?thesis
    using run vls(4) lens(4) other vals frame tr by blast
qed

section \<open>The reduction loop for even \<open>N\<close>\<close>

lemma heap_eq_elem: "heap s' = heap s \<Longrightarrow> elem s' p k = elem s p k"
  by (simp add: elem_def)

lemma heap_eq_in_bounds: "heap s' = heap s \<Longrightarrow> in_bounds s' p n = in_bounds s p n"
  by (simp add: in_bounds_def)

declare matmul_loop.simps [simp del]

lemma red_load_Fld: "i < 4 \<Longrightarrow> k < N \<Longrightarrow> red_load a b N P v (Fld (padd a (i * N + k)))"
  unfolding red_load_def by blast

lemma red_load_Fld4:
  assumes "k < N"
  shows "\<forall>e\<in>set (map (\<lambda>i. Fld (padd (padd a k) (i * N))) [0, 1, 2, 3]). red_load a b N P v e"
  using red_load_Fld [of 0 k N a b P v] red_load_Fld [of 1 k N a b P v]
    red_load_Fld [of 2 k N a b P v] red_load_Fld [of 3 k N a b P v] assms
  by (simp add: add.commute)

lemma red_load_Vle: "k < N \<Longrightarrow> red_load a b N P v (Vle (padd b (k * P)) v)"
  unfolding red_load_def by auto

lemma matmul_loop_even:
  fixes c0 :: "nat \<Rightarrow> nat \<Rightarrow> 'a"
  assumes "even N" "even n" "n < N"
    and A: "snd a' + 4 * N \<le> length (heap s (fst a'))"
    and B: "\<forall>k<N. in_bounds s (padd b' (k * P)) (vl s)"
    and b: "b = padd b' ((n + 1) * P)"
    and t: "\<forall>i<4. scal t i = elem s a' (i * N + n)"
    and v16: "\<forall>j<vl s. vrf s V16 j = elem s b' (n * P + j)"
    and acc: "\<forall>i<4. \<forall>j<vl s. vrf s (acc_reg i) j =
        naive_fma fma (\<lambda>k. elem s a' (i * N + k)) (\<lambda>k. elem s b' (k * P + j)) (c0 i j) n"
  shows "\<exists>t' s'. matmul_loop fma a' N P n b t s = Inr (t', s') \<and> heap s' = heap s \<and> vl s' = vl s
     \<and> (\<forall>i<4. scal t' i = elem s a' (i * N + (N - 1)))
     \<and> (\<forall>j<vl s. vrf s' V20 j = elem s b' ((N - 1) * P + j))
     \<and> (\<forall>i<4. \<forall>j<vl s. vrf s' (acc_reg i) j =
          naive_fma fma (\<lambda>k. elem s a' (i * N + k)) (\<lambda>k. elem s b' (k * P + j)) (c0 i j) (N - 1))
     \<and> (\<exists>tr. trace s' = trace s @ tr \<and> (\<forall>e\<in>set tr. red_load a' b' N P (vl s) e))"
  using assms
proof (induction "N - n" arbitrary: n b t s rule: less_induct)
  case less
  note A = less.prems(4) and B = less.prems(5) and b = less.prems(6) and t = less.prems(7)
    and v16 = less.prems(8) and acc = less.prems(9)
  let ?Ar = "\<lambda>i k. elem s a' (i * N + k)"
  let ?Bc = "\<lambda>j k. elem s b' (k * P + j)"
  from less.prems(1-3) have n1: "n + 1 < N"
    by presburger
  \<comment> \<open>line 72: load row \<open>n + 1\<close> of B into \<open>v20\<close>\<close>
  have bnd1: "in_bounds s b (vl s)"
    using B [rule_format, of "n + 1"] n1 b by simp
  define s1 where "s1 = s\<lparr>vrf := (vrf s)(V20 := (\<lambda>j. if j < vl s then elem s b j else vrf s V20 j)),
                         trace := trace s @ [Vle b (vl s)]\<rparr>"
  have e1: "vle64 V20 b s = Inr s1"
    using vle64_ok [OF bnd1] by (simp add: s1_def)
  have s1: "heap s1 = heap s" "vl s1 = vl s" "vrf s1 V16 = vrf s V16"
    "\<And>i. i < 4 \<Longrightarrow> vrf s1 (acc_reg i) = vrf s (acc_reg i)"
    "\<And>j. j < vl s \<Longrightarrow> vrf s1 V20 j = elem s b' ((n + 1) * P + j)"
    "trace s1 = trace s @ [Vle (padd b' ((n + 1) * P)) (vl s)]"
    by (auto simp: s1_def lt4 b)
  \<comment> \<open>lines 77-84\<close>
  have A1: "snd (padd a' (n + 1)) + 3 * N < length (heap s1 (fst (padd a' (n + 1))))"
    using A n1 by (simp add: s1)
  from fmacc_fld4_ok [OF A1, of V16 fma t] obtain t1 s2 where
    e2: "fmacc_fld4 fma V16 (padd a' (n + 1)) N t s1 = Inr (t1, s2)" and
    s2: "heap s2 = heap s1" "vl s2 = vl s1" "vrf s2 V16 = vrf s1 V16" "vrf s2 V20 = vrf s1 V20"
      "\<forall>i<4. scal t1 i = elem s1 (padd a' (n + 1)) (i * N)"
      "\<forall>i<4. \<forall>j<vl s1. vrf s2 (acc_reg i) j = fma (scal t i) (vrf s1 V16 j) (vrf s1 (acc_reg i) j)"
      "trace s2 = trace s1 @ map (\<lambda>i. Fld (padd (padd a' (n + 1)) (i * N))) [0, 1, 2, 3]"
    by blast
  have t1: "\<forall>i<4. scal t1 i = ?Ar i (n + 1)"
    using s2(5) by (simp add: heap_eq_elem [OF s1(1)] add.commute)
  have acc2: "\<forall>i<4. \<forall>j<vl s. vrf s2 (acc_reg i) j = naive_fma fma (?Ar i) (?Bc j) (c0 i j) (Suc n)"
    using s2(6) s1 t v16 acc by simp
  have v20: "\<forall>j<vl s. vrf s2 V20 j = ?Bc j (n + 1)"
    using s2(4) s1(5) by simp
  have tr2: "\<exists>tr. trace s2 = trace s @ tr \<and> (\<forall>e\<in>set tr. red_load a' b' N P (vl s) e)"
  proof (intro exI conjI)
    show "trace s2 = trace s @ (Vle (padd b' ((n + 1) * P)) (vl s)
            # map (\<lambda>i. Fld (padd (padd a' (n + 1)) (i * N))) [0, 1, 2, 3])"
      unfolding s2(7) s1(6) by simp
    show "\<forall>e\<in>set (Vle (padd b' ((n + 1) * P)) (vl s)
            # map (\<lambda>i. Fld (padd (padd a' (n + 1)) (i * N))) [0, 1, 2, 3]). red_load a' b' N P (vl s) e"
      using red_load_Fld4 [OF n1, where a = a' and b = b' and P = P and v = "vl s"]
          red_load_Vle [OF n1, where a = a' and b = b' and P = P and v = "vl s"]
      by (metis set_ConsD)
  qed
  have unf0: "matmul_loop fma a' N P n b t s =
      (if n + 1 = N - 1 then Inr (t1, s2) else
        case vle64 V16 (padd b P) s2 of Inl e \<Rightarrow> Inl e | Inr st3 \<Rightarrow>
        case fmacc_fld4 fma V20 (padd a' (n + 2)) N t1 st3 of Inl e \<Rightarrow> Inl e | Inr (t2, st4) \<Rightarrow>
        matmul_loop fma a' N P (n + 2) (padd (padd b P) P) t2 st4)"
    by (subst matmul_loop.simps) (simp only: less.prems(3) if_True e1 e2 sum.case prod.case)
  show ?case
  proof (cases "n + 1 = N - 1")
    case True
    then have "matmul_loop fma a' N P n b t s = Inr (t1, s2)"
      unfolding unf0 by simp
    moreover have "Suc n = N - 1" using True by simp
    ultimately show ?thesis
      using t1 acc2 v20 tr2 s1 s2 by (auto simp: True)
  next
    case False
    with n1 have n2: "n + 2 < N" by simp
    \<comment> \<open>line 90: load row \<open>n + 2\<close> of B into \<open>v16\<close>\<close>
    have bnd3: "in_bounds s2 (padd b P) (vl s2)"
      using B [rule_format, of "n + 2"] n2 b s1 s2
      by (simp add: heap_eq_in_bounds [of s2 s] add.commute)
    define s3 where "s3 = s2\<lparr>vrf := (vrf s2)(V16 := (\<lambda>j. if j < vl s2 then elem s2 (padd b P) j else vrf s2 V16 j)),
                         trace := trace s2 @ [Vle (padd b P) (vl s2)]\<rparr>"
    have e3: "vle64 V16 (padd b P) s2 = Inr s3"
      using vle64_ok [OF bnd3] by (simp add: s3_def)
    have hs2: "heap s2 = heap s" using s1 s2 by simp
    have s3: "heap s3 = heap s" "vl s3 = vl s" "vrf s3 V20 = vrf s2 V20"
      "\<And>i. i < 4 \<Longrightarrow> vrf s3 (acc_reg i) = vrf s2 (acc_reg i)"
      "\<And>j. j < vl s \<Longrightarrow> vrf s3 V16 j = elem s b' ((n + 2) * P + j)"
      "trace s3 = trace s2 @ [Vle (padd b' ((n + 2) * P)) (vl s)]"
      using s1(1,2) s2(1,2) by (auto simp: s3_def lt4 b heap_eq_elem [OF hs2] add.commute add.left_commute)
    \<comment> \<open>lines 93-100\<close>
    have A3: "snd (padd a' (n + 2)) + 3 * N < length (heap s3 (fst (padd a' (n + 2))))"
      using A n2 by (simp add: s3)
    from fmacc_fld4_ok [OF A3, of V20 fma t1] obtain t2 s4 where
      e4: "fmacc_fld4 fma V20 (padd a' (n + 2)) N t1 s3 = Inr (t2, s4)" and
      s4: "heap s4 = heap s3" "vl s4 = vl s3" "vrf s4 V16 = vrf s3 V16" "vrf s4 V20 = vrf s3 V20"
        "\<forall>i<4. scal t2 i = elem s3 (padd a' (n + 2)) (i * N)"
        "\<forall>i<4. \<forall>j<vl s3. vrf s4 (acc_reg i) j = fma (scal t1 i) (vrf s3 V20 j) (vrf s3 (acc_reg i) j)"
        "trace s4 = trace s3 @ map (\<lambda>i. Fld (padd (padd a' (n + 2)) (i * N))) [0, 1, 2, 3]"
      by blast
    have hs4: "heap s4 = heap s" "vl s4 = vl s" using s4 s3 by simp_all
    have t2: "\<forall>i<4. scal t2 i = elem s4 a' (i * N + (n + 2))"
      using s4(5) by (simp add: heap_eq_elem [OF s3(1)] heap_eq_elem [OF hs4(1)] add.commute)
    have acc4: "\<forall>i<4. \<forall>j<vl s4. vrf s4 (acc_reg i) j =
        naive_fma fma (\<lambda>k. elem s4 a' (i * N + k)) (\<lambda>k. elem s4 b' (k * P + j)) (c0 i j) (n + 2)"
      using s4(6) s3 t1 v20 acc2 by (simp add: heap_eq_elem [OF hs4(1)] hs4)
    have v16': "\<forall>j<vl s4. vrf s4 V16 j = elem s4 b' ((n + 2) * P + j)"
      using s4(3) s3(5) by (simp add: heap_eq_elem [OF hs4(1)] hs4)
    have tr4: "\<exists>tr. trace s4 = trace s @ tr \<and> (\<forall>e\<in>set tr. red_load a' b' N P (vl s) e)"
    proof -
      from tr2 obtain tr where tr: "trace s2 = trace s @ tr" "\<forall>e\<in>set tr. red_load a' b' N P (vl s) e"
        by blast
      have "\<forall>e\<in>set (Vle (padd b' ((n + 2) * P)) (vl s)
            # map (\<lambda>i. Fld (padd (padd a' (n + 2)) (i * N))) [0, 1, 2, 3]). red_load a' b' N P (vl s) e"
        using red_load_Fld4 [OF n2, where a = a' and b = b' and P = P and v = "vl s"]
          red_load_Vle [OF n2, where a = a' and b = b' and P = P and v = "vl s"]
        by (metis set_ConsD)
      with tr(2) have "\<forall>e\<in>set (tr @ Vle (padd b' ((n + 2) * P)) (vl s)
            # map (\<lambda>i. Fld (padd (padd a' (n + 2)) (i * N))) [0, 1, 2, 3]). red_load a' b' N P (vl s) e"
        unfolding set_append by blast
      moreover have "trace s4 = trace s @ (tr @ Vle (padd b' ((n + 2) * P)) (vl s)
            # map (\<lambda>i. Fld (padd (padd a' (n + 2)) (i * N))) [0, 1, 2, 3])"
        unfolding s4(7) s3(6) tr(1) by simp
      ultimately show ?thesis by blast
    qed
    have IH: "\<exists>t' s'. matmul_loop fma a' N P (n + 2) (padd (padd b P) P) t2 s4 = Inr (t', s')
       \<and> heap s' = heap s4 \<and> vl s' = vl s4
       \<and> (\<forall>i<4. scal t' i = elem s4 a' (i * N + (N - 1)))
       \<and> (\<forall>j<vl s4. vrf s' V20 j = elem s4 b' ((N - 1) * P + j))
       \<and> (\<forall>i<4. \<forall>j<vl s4. vrf s' (acc_reg i) j =
          naive_fma fma (\<lambda>k. elem s4 a' (i * N + k)) (\<lambda>k. elem s4 b' (k * P + j)) (c0 i j) (N - 1))
       \<and> (\<exists>tr. trace s' = trace s4 @ tr \<and> (\<forall>e\<in>set tr. red_load a' b' N P (vl s4) e))"
    proof (rule less.hyps)
      show "N - (n + 2) < N - n" using n2 by simp
      show "even N" by fact
      show "even (n + 2)" using less.prems(2) by simp
      show "n + 2 < N" by fact
      show "snd a' + 4 * N \<le> length (heap s4 (fst a'))" using A hs4 by simp
      show "\<forall>k<N. in_bounds s4 (padd b' (k * P)) (vl s4)"
        using B by (simp add: heap_eq_in_bounds [OF hs4(1)] hs4)
      show "padd (padd b P) P = padd b' ((n + 2 + 1) * P)" by (simp add: b algebra_simps)
      show "\<forall>i<4. scal t2 i = elem s4 a' (i * N + (n + 2))" by fact
      show "\<forall>j<vl s4. vrf s4 V16 j = elem s4 b' ((n + 2) * P + j)" by fact
      show "\<forall>i<4. \<forall>j<vl s4. vrf s4 (acc_reg i) j =
        naive_fma fma (\<lambda>k. elem s4 a' (i * N + k)) (\<lambda>k. elem s4 b' (k * P + j)) (c0 i j) (n + 2)"
        by fact
    qed
    have unf: "matmul_loop fma a' N P n b t s = matmul_loop fma a' N P (n + 2) (padd (padd b P) P) t2 s4"
      unfolding unf0 by (simp only: False if_False e3 e4 sum.case prod.case)
    from IH obtain t' s' tr' where
      r: "matmul_loop fma a' N P (n + 2) (padd (padd b P) P) t2 s4 = Inr (t', s')"
        "heap s' = heap s4" "vl s' = vl s4"
        "\<forall>i<4. scal t' i = elem s4 a' (i * N + (N - 1))"
        "\<forall>j<vl s4. vrf s' V20 j = elem s4 b' ((N - 1) * P + j)"
        "\<forall>i<4. \<forall>j<vl s4. vrf s' (acc_reg i) j =
          naive_fma fma (\<lambda>k. elem s4 a' (i * N + k)) (\<lambda>k. elem s4 b' (k * P + j)) (c0 i j) (N - 1)"
        "trace s' = trace s4 @ tr'" "\<forall>e\<in>set tr'. red_load a' b' N P (vl s4) e"
      by blast
    from tr4 obtain tr where tr: "trace s4 = trace s @ tr" "\<forall>e\<in>set tr. red_load a' b' N P (vl s) e"
      by blast
    have "trace s' = trace s @ (tr @ tr')" "\<forall>e\<in>set (tr @ tr'). red_load a' b' N P (vl s) e"
      using r(7,8) tr hs4 by auto
    then have trf: "\<exists>tr. trace s' = trace s @ tr \<and> (\<forall>e\<in>set tr. red_load a' b' N P (vl s) e)"
      by blast
    show ?thesis
      unfolding unf using r(1-6) trf
      by (simp add: heap_eq_elem [OF hs4(1)] hs4)
  qed
qed

section \<open>One kernel call for even \<open>N\<close>\<close>

lemma kernel_even:
  assumes N: "even N" "0 < N"
    and A: "snd a + 4 * N \<le> length (heap st (fst a))"
    and B: "\<forall>k<N. in_bounds st (padd b (k * P)) (vl st)"
    and C: "\<forall>i<4. in_bounds st (padd c (i * P)) (vl st)"
    and le: "vl st \<le> P"
  shows "\<exists>st'. matmul_vec_4x4 fma c a b N P st = Inr st' \<and> vl st' = vl st
     \<and> (\<forall>blk. blk \<noteq> fst c \<longrightarrow> heap st' blk = heap st blk)
     \<and> length (heap st' (fst c)) = length (heap st (fst c))
     \<and> (\<forall>i<4. \<forall>j<vl st. elem st' c (i * P + j) =
          naive_fma fma (\<lambda>k. elem st a (i * N + k)) (\<lambda>k. elem st b (k * P + j)) (vrf st (acc_reg i) j) N)
     \<and> (\<forall>idx<length (heap st (fst c)). (\<forall>i<4. \<forall>j<vl st. idx \<noteq> snd c + i * P + j)
           \<longrightarrow> heap st' (fst c) ! idx = heap st (fst c) ! idx)
     \<and> (\<exists>tr. trace st' = trace st @ tr @ map (\<lambda>i. Vse (padd c (i * P)) (vl st)) [0, 1, 2, 3]
           \<and> (\<forall>e\<in>set tr. red_load a b N P (vl st) e))"
proof -
  let ?Ar = "\<lambda>i k. elem st a (i * N + k)"
  let ?Bc = "\<lambda>j k. elem st b (k * P + j)"
  \<comment> \<open>line 59\<close>
  have bnd0: "in_bounds st b (vl st)" using B [rule_format, of 0] N by simp
  define s0 where "s0 = st\<lparr>vrf := (vrf st)(V16 := (\<lambda>j. if j < vl st then elem st b j else vrf st V16 j)),
                         trace := trace st @ [Vle b (vl st)]\<rparr>"
  have e0: "vle64 V16 b st = Inr s0"
    using vle64_ok [OF bnd0] by (simp add: s0_def)
  have s0: "heap s0 = heap st" "vl s0 = vl st"
    "\<And>i. i < 4 \<Longrightarrow> vrf s0 (acc_reg i) = vrf st (acc_reg i)"
    "\<And>j. j < vl st \<Longrightarrow> vrf s0 V16 j = elem st b j"
    "trace s0 = trace st @ [Vle (padd b (0 * P)) (vl st)]"
    by (auto simp: s0_def lt4)
  \<comment> \<open>lines 62-65\<close>
  have A0: "snd a + 3 * N < length (heap s0 (fst a))" using A N by (simp add: s0)
  from fld4_ok [OF A0] obtain t s1 where
    e1: "fld4 a N s0 = Inr (t, s1)" and
    s1: "heap s1 = heap s0" "vl s1 = vl s0" "vrf s1 = vrf s0"
      "\<forall>i<4. scal t i = elem s0 a (i * N)"
      "trace s1 = trace s0 @ map (\<lambda>i. Fld (padd a (i * N))) [0, 1, 2, 3]"
    by blast
  have h1: "heap s1 = heap st" "vl s1 = vl st" using s0 s1 by simp_all
  \<comment> \<open>lines 70-101\<close>
  have "\<exists>t' s'. matmul_loop fma a N P 0 (padd b P) t s1 = Inr (t', s') \<and> heap s' = heap s1 \<and> vl s' = vl s1
     \<and> (\<forall>i<4. scal t' i = elem s1 a (i * N + (N - 1)))
     \<and> (\<forall>j<vl s1. vrf s' V20 j = elem s1 b ((N - 1) * P + j))
     \<and> (\<forall>i<4. \<forall>j<vl s1. vrf s' (acc_reg i) j =
          naive_fma fma (\<lambda>k. elem s1 a (i * N + k)) (\<lambda>k. elem s1 b (k * P + j)) (vrf st (acc_reg i) j) (N - 1))
     \<and> (\<exists>tr. trace s' = trace s1 @ tr \<and> (\<forall>e\<in>set tr. red_load a b N P (vl s1) e))"
  proof (rule matmul_loop_even)
    show "even N" "even (0::nat)" "0 < N" using N by simp_all
    show "snd a + 4 * N \<le> length (heap s1 (fst a))" using A h1 by simp
    show "\<forall>k<N. in_bounds s1 (padd b (k * P)) (vl s1)"
      using B by (simp add: heap_eq_in_bounds [OF h1(1)] h1)
    show "padd b P = padd b ((0 + 1) * P)" by simp
    show "\<forall>i<4. scal t i = elem s1 a (i * N + 0)"
      using s1(4) by (simp add: heap_eq_elem [OF s0(1)] heap_eq_elem [OF h1(1)])
    show "\<forall>j<vl s1. vrf s1 V16 j = elem s1 b (0 * P + j)"
      using s0(4) s1(3) by (simp add: heap_eq_elem [OF h1(1)] h1)
    show "\<forall>i<4. \<forall>j<vl s1. vrf s1 (acc_reg i) j =
        naive_fma fma (\<lambda>k. elem s1 a (i * N + k)) (\<lambda>k. elem s1 b (k * P + j)) (vrf st (acc_reg i) j) 0"
      using s0(3) s1(3) by simp
  qed
  then obtain t' s2 tr where
    e2: "matmul_loop fma a N P 0 (padd b P) t s1 = Inr (t', s2)" and
    s2: "heap s2 = heap s1" "vl s2 = vl s1"
      "\<forall>i<4. scal t' i = elem s1 a (i * N + (N - 1))"
      "\<forall>j<vl s1. vrf s2 V20 j = elem s1 b ((N - 1) * P + j)"
      "\<forall>i<4. \<forall>j<vl s1. vrf s2 (acc_reg i) j =
          naive_fma fma (\<lambda>k. elem s1 a (i * N + k)) (\<lambda>k. elem s1 b (k * P + j)) (vrf st (acc_reg i) j) (N - 1)"
      "trace s2 = trace s1 @ tr" "\<forall>e\<in>set tr. red_load a b N P (vl s1) e"
    by blast
  have h2: "heap s2 = heap st" "vl s2 = vl st" using s2 h1 by simp_all
  \<comment> \<open>lines 104-111\<close>
  have C2: "\<forall>i<4. in_bounds s2 (padd c (i * P)) (vl s2)"
    using C by (simp add: heap_eq_in_bounds [OF h2(1)] h2)
  have le2: "vl s2 \<le> P" using le h2 by simp
  from fmacc_vse4_ok [OF C2 le2, of fma t'] obtain s3 where
    e3: "fmacc_vse4 fma c P t' s2 = Inr s3" and
    s3: "vl s3 = vl s2" "\<forall>blk. blk \<noteq> fst c \<longrightarrow> heap s3 blk = heap s2 blk"
      "length (heap s3 (fst c)) = length (heap s2 (fst c))"
      "\<forall>i<4. \<forall>j<vl s2. elem s3 c (i * P + j) = fma (scal t' i) (vrf s2 V20 j) (vrf s2 (acc_reg i) j)"
      "\<forall>idx<length (heap s2 (fst c)). (\<forall>i<4. \<forall>j<vl s2. idx \<noteq> snd c + i * P + j)
           \<longrightarrow> heap s3 (fst c) ! idx = heap s2 (fst c) ! idx"
      "trace s3 = trace s2 @ map (\<lambda>i. Vse (padd c (i * P)) (vl s2)) [0, 1, 2, 3]"
    by blast
  have run: "matmul_vec_4x4 fma c a b N P st = Inr s3"
    unfolding matmul_vec_4x4_def Let_def
    by (simp only: e0 e1 e2 e3 sum.case prod.case)
  have SN: "Suc (N - 1) = N" using N by simp
  have vals: "\<forall>i<4. \<forall>j<vl st. elem s3 c (i * P + j) =
          naive_fma fma (?Ar i) (?Bc j) (vrf st (acc_reg i) j) N"
  proof (intro allI impI)
    fix i j assume i: "i < (4::nat)" and j: "j < vl st"
    have "elem s3 c (i * P + j) = fma (scal t' i) (vrf s2 V20 j) (vrf s2 (acc_reg i) j)"
      using s3(4) i j h2 by simp
    also have "\<dots> = fma (?Ar i (N - 1)) (?Bc j (N - 1)) (naive_fma fma (?Ar i) (?Bc j) (vrf st (acc_reg i) j) (N - 1))"
      using s2(3,4,5) i j h1 by (simp add: heap_eq_elem [OF h1(1)])
    also have "\<dots> = naive_fma fma (?Ar i) (?Bc j) (vrf st (acc_reg i) j) (Suc (N - 1))"
      by simp
    finally show "elem s3 c (i * P + j) = naive_fma fma (?Ar i) (?Bc j) (vrf st (acc_reg i) j) N"
      unfolding SN .
  qed
  have tr: "trace s3 = trace st @ (Vle (padd b (0 * P)) (vl st) # map (\<lambda>i. Fld (padd a (i * N))) [0, 1, 2, 3] @ tr)
      @ map (\<lambda>i. Vse (padd c (i * P)) (vl st)) [0, 1, 2, 3]"
    unfolding s3(6) s2(6) s1(5) s0(5) h2 by simp
  have ld0: "\<forall>e\<in>set (map (\<lambda>i. Fld (padd a (i * N))) [0, 1, 2, 3]). red_load a b N P (vl st) e"
    using red_load_Fld4 [OF N(2), where a = a and b = b and P = P and v = "vl st"]
    by (simp only: padd_simps(4))
  have "\<forall>e\<in>set (Vle (padd b (0 * P)) (vl st) # map (\<lambda>i. Fld (padd a (i * N))) [0, 1, 2, 3] @ tr).
      red_load a b N P (vl st) e"
    using ld0 red_load_Vle [OF N(2), where a = a and b = b and P = P and v = "vl st"] s2(7)
    unfolding h1 set_append set_simps by blast
  with tr have trf: "\<exists>tr. trace s3 = trace st @ tr @ map (\<lambda>i. Vse (padd c (i * P)) (vl st)) [0, 1, 2, 3]
           \<and> (\<forall>e\<in>set tr. red_load a b N P (vl st) e)"
    by blast
  show ?thesis
    using run s3(1,2,3,5) h2 vals trf by simp
qed

section \<open>Initializer and kernel on one block\<close>

lemma traced_refl: "traced Q st st"
  by (simp add: traced_def)

lemma traced_trans: "traced Q s1 s2 \<Longrightarrow> traced Q s2 s3 \<Longrightarrow> traced Q s1 s3"
  unfolding traced_def by (metis UnE append.assoc set_append)

lemma traced_mono: "traced Q s1 s2 \<Longrightarrow> (\<And>e. Q e \<Longrightarrow> Q' e) \<Longrightarrow> traced Q' s1 s2"
  unfolding traced_def by blast

lemma traced_vl [simp]: "traced Q (st\<lparr>vl := v\<rparr>) st' = traced Q st st'"
  by (simp add: traced_def)

lemma idx_unique:
  assumes "j < P" "j' < P" "i * P + j = i' * P + (j'::nat)"
  shows "i = i' \<and> j = j'"
proof -
  have d: "(i * P + j) div P = i" using assms(1) by simp
  have d': "(i' * P + j') div P = i'" using assms(2) by simp
  have "i = i'" using d d' unfolding assms(3) by simp
  with assms(3) show ?thesis by simp
qed

lemma block_even:
  assumes N: "even N" "0 < N"
    and A: "snd a + 4 * N \<le> length (heap st (fst a))"
    and B: "\<forall>k<N. in_bounds st (padd b (k * P)) (vl st)"
    and C: "\<forall>i<4. in_bounds st (padd c (i * P)) (vl st)"
    and le: "vl st \<le> P"
  shows "\<exists>st1 st2. matmul_vec_4x4_slice_init c P st = Inr st1
     \<and> matmul_vec_4x4 fma c a b N P st1 = Inr st2 \<and> vl st2 = vl st
     \<and> (\<forall>blk. blk \<noteq> fst c \<longrightarrow> heap st2 blk = heap st blk)
     \<and> length (heap st2 (fst c)) = length (heap st (fst c))
     \<and> (\<forall>i<4. \<forall>j<vl st. elem st2 c (i * P + j) =
          naive_fma fma (\<lambda>k. elem st a (i * N + k)) (\<lambda>k. elem st b (k * P + j)) (elem st c (i * P + j)) N)
     \<and> (\<forall>idx<length (heap st (fst c)). (\<forall>i<4. \<forall>j<vl st. idx \<noteq> snd c + i * P + j)
           \<longrightarrow> heap st2 (fst c) ! idx = heap st (fst c) ! idx)
     \<and> (\<exists>tr. trace st2 = trace st @ map (\<lambda>i. Vle (padd c (i * P)) (vl st)) [0, 1, 2, 3] @ tr
              @ map (\<lambda>i. Vse (padd c (i * P)) (vl st)) [0, 1, 2, 3]
           \<and> (\<forall>e\<in>set tr. red_load a b N P (vl st) e))"
proof -
  from slice_init_ok [OF C] obtain s1 where
    e1: "matmul_vec_4x4_slice_init c P st = Inr s1" and
    s1: "heap s1 = heap st" "vl s1 = vl st"
      "\<forall>i<4. \<forall>j<vl st. vrf s1 (acc_reg i) j = elem st c (i * P + j)"
      "trace s1 = trace st @ map (\<lambda>i. Vle (padd c (i * P)) (vl st)) [0, 1, 2, 3]"
    by blast
  have A1: "snd a + 4 * N \<le> length (heap s1 (fst a))" using A s1 by simp
  have B1: "\<forall>k<N. in_bounds s1 (padd b (k * P)) (vl s1)"
    using B by (simp add: heap_eq_in_bounds [OF s1(1)] s1)
  have C1: "\<forall>i<4. in_bounds s1 (padd c (i * P)) (vl s1)"
    using C by (simp add: heap_eq_in_bounds [OF s1(1)] s1)
  have le1: "vl s1 \<le> P" using le s1 by simp
  from kernel_even [OF N A1 B1 C1 le1, of fma] obtain s2 tr where
    e2: "matmul_vec_4x4 fma c a b N P s1 = Inr s2" and
    s2: "vl s2 = vl s1" "\<forall>blk. blk \<noteq> fst c \<longrightarrow> heap s2 blk = heap s1 blk"
      "length (heap s2 (fst c)) = length (heap s1 (fst c))"
      "\<forall>i<4. \<forall>j<vl s1. elem s2 c (i * P + j) =
          naive_fma fma (\<lambda>k. elem s1 a (i * N + k)) (\<lambda>k. elem s1 b (k * P + j)) (vrf s1 (acc_reg i) j) N"
      "\<forall>idx<length (heap s1 (fst c)). (\<forall>i<4. \<forall>j<vl s1. idx \<noteq> snd c + i * P + j)
           \<longrightarrow> heap s2 (fst c) ! idx = heap s1 (fst c) ! idx"
      "trace s2 = trace s1 @ tr @ map (\<lambda>i. Vse (padd c (i * P)) (vl s1)) [0, 1, 2, 3]"
      "\<forall>e\<in>set tr. red_load a b N P (vl s1) e"
    by blast
  have vals: "\<forall>i<4. \<forall>j<vl st. elem s2 c (i * P + j) =
          naive_fma fma (\<lambda>k. elem st a (i * N + k)) (\<lambda>k. elem st b (k * P + j)) (elem st c (i * P + j)) N"
    using s2(4) s1(3) by (simp add: heap_eq_elem [OF s1(1)] s1(2))
  have tr: "trace s2 = trace st @ map (\<lambda>i. Vle (padd c (i * P)) (vl st)) [0, 1, 2, 3] @ tr
              @ map (\<lambda>i. Vse (padd c (i * P)) (vl st)) [0, 1, 2, 3]"
    unfolding s2(6) s1(4) s1(2) by simp
  show ?thesis
    using e1 e2 s2(1,2,3,5,7) s1(1,2) vals tr by auto
qed

section \<open>The row loop for even \<open>N\<close>\<close>

declare row_loop.simps [simp del]

lemma rows_bound: "i < M \<Longrightarrow> p + v \<le> P \<Longrightarrow> i * P + p + v \<le> M * (P::nat)"
proof -
  assume "i < M" "p + v \<le> P"
  then have "i * P + p + v \<le> Suc i * P" by simp
  also have "\<dots> \<le> M * P" using \<open>i < M\<close> by (intro mult_le_mono1) simp
  finally show ?thesis .
qed

lemma ball_map4: "(\<And>i. i < 4 \<Longrightarrow> Q (f i)) \<Longrightarrow> \<forall>e\<in>set (map f [0, 1, 2, 3::nat]). Q e"
  by simp

lemma chunk_access_block:
  assumes "m + 4 \<le> M" "i < 4"
  shows "chunk_access a b c M N P p v (Vle (padd (padd (padd c p) (m * P)) (i * P)) v)"
    and "chunk_access a b c M N P p v (Vse (padd (padd (padd c p) (m * P)) (i * P)) v)"
proof -
  have "padd (padd (padd c p) (m * P)) (i * P) = padd c ((m + i) * P + p)"
    by (simp add: algebra_simps)
  moreover have "m + i < M" using assms by simp
  ultimately show "chunk_access a b c M N P p v (Vle (padd (padd (padd c p) (m * P)) (i * P)) v)"
    and "chunk_access a b c M N P p v (Vse (padd (padd (padd c p) (m * P)) (i * P)) v)"
    unfolding chunk_access_def by blast+
qed

lemma chunk_access_red_load:
  assumes "m + 4 \<le> M" "red_load (padd a (m * N)) (padd b p) N P v e"
  shows "chunk_access a b c M N P p v e"
  using assms(2) unfolding red_load_def
proof (elim disjE exE conjE)
  fix i k assume i: "i < 4" and k: "k < N" and e: "e = Fld (padd (padd a (m * N)) (i * N + k))"
  have "e = Fld (padd a ((m + i) * N + k))" unfolding e by (simp add: algebra_simps)
  moreover have "m + i < M" using assms(1) i by simp
  ultimately show ?thesis unfolding chunk_access_def using k by blast
next
  fix k assume k: "k < N" and e: "e = Vle (padd (padd b p) (k * P)) v"
  have "e = Vle (padd b (k * P + p)) v" unfolding e by (simp add: algebra_simps)
  then show ?thesis unfolding chunk_access_def using k by blast
qed

lemma row_loop_even:
  assumes N: "even N" "0 < N" and M: "4 dvd M" "4 dvd m"
    and sa: "snd a + M * N \<le> length (heap s (fst a))"
    and sb: "snd b + N * P \<le> length (heap s (fst b))"
    and sc: "snd c + M * P \<le> length (heap s (fst c))"
    and ac: "fst a \<noteq> fst c" and bc: "fst b \<noteq> fst c"
    and pv: "p + vl s \<le> P"
  shows "\<exists>s'. row_loop fma (padd c p) a (padd b p) M N P m s = Inr s' \<and> vl s' = vl s
     \<and> (\<forall>blk. blk \<noteq> fst c \<longrightarrow> heap s' blk = heap s blk)
     \<and> length (heap s' (fst c)) = length (heap s (fst c))
     \<and> (\<forall>i j. m \<le> i \<and> i < M \<and> p \<le> j \<and> j < p + vl s \<longrightarrow> elem s' c (i * P + j) =
          naive_fma fma (\<lambda>k. elem s a (i * N + k)) (\<lambda>k. elem s b (k * P + j)) (elem s c (i * P + j)) N)
     \<and> (\<forall>idx<length (heap s (fst c)).
           (\<forall>i j. m \<le> i \<and> i < M \<and> p \<le> j \<and> j < p + vl s \<longrightarrow> idx \<noteq> snd c + i * P + j)
           \<longrightarrow> heap s' (fst c) ! idx = heap s (fst c) ! idx)
     \<and> traced (chunk_access a b c M N P p (vl s)) s s'"
  using M(2) sa sb sc pv
proof (induction "M - m" arbitrary: m s rule: less_induct)
  case less
  note m4 = less.prems(1) and sa = less.prems(2) and sb = less.prems(3) and sc = less.prems(4)
    and pv = less.prems(5)
  let ?v = "vl s"
  show ?case
  proof (cases "m < M")
    case False
    then have "row_loop fma (padd c p) a (padd b p) M N P m s = Inr s"
      by (subst row_loop.simps) simp
    then show ?thesis using False by (auto simp: traced_refl)
  next
    case True
    with M(1) m4 have mM: "m + 4 \<le> M"
      by (auto simp: dvd_def)
    let ?a = "padd a (m * N)"
    let ?b = "padd b p"
    let ?c = "padd (padd c p) (m * P)"
    have le: "?v \<le> P" using pv by simp
    have "m * N + 4 * N \<le> M * N"
      using mult_le_mono1 [OF mM, of N] by (simp add: algebra_simps)
    then have A: "snd ?a + 4 * N \<le> length (heap s (fst ?a))" using sa by simp
    have B: "\<forall>k<N. in_bounds s (padd ?b (k * P)) ?v"
    proof (intro allI impI)
      fix k assume "k < N"
      from rows_bound [OF this pv] show "in_bounds s (padd ?b (k * P)) ?v"
        using sb by (simp add: in_bounds_def mult.commute)
    qed
    have C: "\<forall>i<4. in_bounds s (padd ?c (i * P)) ?v"
    proof (intro allI impI)
      fix i :: nat assume "i < 4"
      then have "m + i < M" using mM by simp
      from rows_bound [OF this pv] show "in_bounds s (padd ?c (i * P)) ?v"
        using sc by (simp add: in_bounds_def algebra_simps)
    qed
    from block_even [OF N A B C le, of fma] obtain s1 s2 where
      e1: "matmul_vec_4x4_slice_init ?c P s = Inr s1" and
      e2: "matmul_vec_4x4 fma ?c ?a ?b N P s1 = Inr s2" and
      s2: "vl s2 = ?v" "\<forall>blk. blk \<noteq> fst c \<longrightarrow> heap s2 blk = heap s blk"
        "length (heap s2 (fst c)) = length (heap s (fst c))"
        "\<forall>i<4. \<forall>j<?v. elem s2 ?c (i * P + j) =
          naive_fma fma (\<lambda>k. elem s ?a (i * N + k)) (\<lambda>k. elem s ?b (k * P + j)) (elem s ?c (i * P + j)) N"
        "\<forall>idx<length (heap s (fst c)). (\<forall>i<4. \<forall>j<?v. idx \<noteq> snd ?c + i * P + j)
           \<longrightarrow> heap s2 (fst c) ! idx = heap s (fst c) ! idx"
      and tr2: "\<exists>tr. trace s2 = trace s @ map (\<lambda>i. Vle (padd ?c (i * P)) ?v) [0, 1, 2, 3] @ tr
              @ map (\<lambda>i. Vse (padd ?c (i * P)) ?v) [0, 1, 2, 3]
           \<and> (\<forall>e\<in>set tr. red_load ?a ?b N P ?v e)"
      by (auto simp del: padd_simps(3) simp add: padd_simps(1))
    have ha: "heap s2 (fst a) = heap s (fst a)" and hb: "heap s2 (fst b) = heap s (fst b)"
      using s2(2) ac bc by simp_all
    have ea: "\<And>k. elem s2 a k = elem s a k" and eb: "\<And>k. elem s2 b k = elem s b k"
      by (simp_all add: elem_def ha hb)
    \<comment> \<open>the remaining row groups\<close>
    have "\<exists>s'. row_loop fma (padd c p) a (padd b p) M N P (m + 4) s2 = Inr s' \<and> vl s' = vl s2
     \<and> (\<forall>blk. blk \<noteq> fst c \<longrightarrow> heap s' blk = heap s2 blk)
     \<and> length (heap s' (fst c)) = length (heap s2 (fst c))
     \<and> (\<forall>i j. m + 4 \<le> i \<and> i < M \<and> p \<le> j \<and> j < p + vl s2 \<longrightarrow> elem s' c (i * P + j) =
          naive_fma fma (\<lambda>k. elem s2 a (i * N + k)) (\<lambda>k. elem s2 b (k * P + j)) (elem s2 c (i * P + j)) N)
     \<and> (\<forall>idx<length (heap s2 (fst c)).
           (\<forall>i j. m + 4 \<le> i \<and> i < M \<and> p \<le> j \<and> j < p + vl s2 \<longrightarrow> idx \<noteq> snd c + i * P + j)
           \<longrightarrow> heap s' (fst c) ! idx = heap s2 (fst c) ! idx)
     \<and> traced (chunk_access a b c M N P p (vl s2)) s2 s'"
    proof (rule less.hyps)
      show "M - (m + 4) < M - m" using True by simp
      show "4 dvd m + 4" using m4 by simp
      show "snd a + M * N \<le> length (heap s2 (fst a))" using sa ha by simp
      show "snd b + N * P \<le> length (heap s2 (fst b))" using sb hb by simp
      show "snd c + M * P \<le> length (heap s2 (fst c))" using sc s2(3) by simp
      show "p + vl s2 \<le> P" using pv s2(1) by simp
    qed
    then obtain s' where
      e3: "row_loop fma (padd c p) a (padd b p) M N P (m + 4) s2 = Inr s'" and
      s': "vl s' = ?v" "\<forall>blk. blk \<noteq> fst c \<longrightarrow> heap s' blk = heap s2 blk"
        "length (heap s' (fst c)) = length (heap s (fst c))"
        "\<forall>i j. m + 4 \<le> i \<and> i < M \<and> p \<le> j \<and> j < p + ?v \<longrightarrow> elem s' c (i * P + j) =
          naive_fma fma (\<lambda>k. elem s a (i * N + k)) (\<lambda>k. elem s b (k * P + j)) (elem s2 c (i * P + j)) N"
        "\<forall>idx<length (heap s (fst c)).
           (\<forall>i j. m + 4 \<le> i \<and> i < M \<and> p \<le> j \<and> j < p + ?v \<longrightarrow> idx \<noteq> snd c + i * P + j)
           \<longrightarrow> heap s' (fst c) ! idx = heap s2 (fst c) ! idx"
        "traced (chunk_access a b c M N P p ?v) s2 s'"
      unfolding s2(1) s2(3) ea eb by blast
    have run: "row_loop fma (padd c p) a (padd b p) M N P m s = Inr s'"
      by (subst row_loop.simps) (simp only: True if_True Let_def e1 e2 e3 sum.case)
    \<comment> \<open>positions of the block at row \<open>m\<close> and of the later rows do not meet\<close>
    have in_len: "\<And>i j. i < M \<Longrightarrow> p \<le> j \<Longrightarrow> j < p + ?v \<Longrightarrow> snd c + i * P + j < length (heap s (fst c))"
    proof -
      fix i j assume i: "i < M" and j: "p \<le> j" "j < p + ?v"
      have "i * P + j < i * P + p + ?v" using j by simp
      also have "\<dots> \<le> M * P" by (rule rows_bound [OF i pv])
      finally show "snd c + i * P + j < length (heap s (fst c))" using sc by simp
    qed
    have blk_idx: "\<And>i j i' j'. i < M \<Longrightarrow> p \<le> j \<Longrightarrow> j < p + ?v \<Longrightarrow> j' < ?v \<Longrightarrow>
        snd c + i * P + j = snd ?c + i' * P + j' \<Longrightarrow> i = m + i' \<and> j = p + j'"
    proof -
      fix i j i' j' assume j: "p \<le> j" "j < p + ?v" and j': "j' < ?v"
        and eq: "snd c + i * P + j = snd ?c + i' * P + j'"
      have "i * P + j = (m + i') * P + (p + j')" using eq by (simp add: algebra_simps)
      moreover have "j < P" "p + j' < P" using j j' pv by simp_all
      ultimately show "i = m + i' \<and> j = p + j'" using idx_unique by blast
    qed
    have vals: "\<forall>i j. m \<le> i \<and> i < M \<and> p \<le> j \<and> j < p + ?v \<longrightarrow> elem s' c (i * P + j) =
          naive_fma fma (\<lambda>k. elem s a (i * N + k)) (\<lambda>k. elem s b (k * P + j)) (elem s c (i * P + j)) N"
    proof (intro allI impI, elim conjE)
      fix i j assume i: "m \<le> i" "i < M" and j: "p \<le> j" "j < p + ?v"
      have l: "snd c + i * P + j < length (heap s (fst c))" by (rule in_len [OF i(2) j])
      show "elem s' c (i * P + j) =
          naive_fma fma (\<lambda>k. elem s a (i * N + k)) (\<lambda>k. elem s b (k * P + j)) (elem s c (i * P + j)) N"
      proof (cases "i < m + 4")
        case True
        define i' where "i' = i - m"
        define j' where "j' = j - p"
        have ij: "i = m + i'" "j = p + j'" "i' < 4" "j' < ?v"
          using i j True by (simp_all add: i'_def j'_def)
        have "\<forall>i0 j0. m + 4 \<le> i0 \<and> i0 < M \<and> p \<le> j0 \<and> j0 < p + ?v \<longrightarrow>
            snd c + i * P + j \<noteq> snd c + i0 * P + j0"
        proof (intro allI impI notI, elim conjE)
          fix i0 j0 assume a: "m + 4 \<le> i0" "p \<le> j0" "j0 < p + ?v"
            and eq: "snd c + i * P + j = snd c + i0 * P + j0"
          have "j < P" "j0 < P" using j a pv by simp_all
          with eq idx_unique [of j P j0 i i0] have "i = i0" by simp
          with a True show False by simp
        qed
        with s'(5) l have "heap s' (fst c) ! (snd c + i * P + j) = heap s2 (fst c) ! (snd c + i * P + j)"
          by blast
        then have "elem s' c (i * P + j) = elem s2 ?c (i' * P + j')"
          by (simp add: elem_def ij algebra_simps)
        also have "\<dots> = naive_fma fma (\<lambda>k. elem s ?a (i' * N + k)) (\<lambda>k. elem s ?b (k * P + j'))
            (elem s ?c (i' * P + j')) N"
          using s2(4) ij by blast
        also have "(\<lambda>k. elem s ?a (i' * N + k)) = (\<lambda>k. elem s a (i * N + k))"
          by (simp add: ij algebra_simps)
        also have "(\<lambda>k. elem s ?b (k * P + j')) = (\<lambda>k. elem s b (k * P + j))"
          by (simp add: ij algebra_simps)
        also have "elem s ?c (i' * P + j') = elem s c (i * P + j)"
          by (simp add: ij algebra_simps)
        finally show ?thesis .
      next
        case False
        then have i4: "m + 4 \<le> i" by simp
        have "\<forall>i'<4. \<forall>j'<?v. snd c + i * P + j \<noteq> snd ?c + i' * P + j'"
        proof (intro allI impI notI)
          fix i' j' assume a: "i' < (4::nat)" "j' < ?v"
            and eq: "snd c + i * P + j = snd ?c + i' * P + j'"
          from blk_idx [OF i(2) j a(2) eq] a i4 show False by simp
        qed
        with s2(5) l have "heap s2 (fst c) ! (snd c + i * P + j) = heap s (fst c) ! (snd c + i * P + j)"
          by blast
        then have "elem s2 c (i * P + j) = elem s c (i * P + j)"
          by (simp add: elem_def add.assoc)
        with s'(4) i4 i j show ?thesis by simp
      qed
    qed
    have frame: "\<forall>idx<length (heap s (fst c)).
           (\<forall>i j. m \<le> i \<and> i < M \<and> p \<le> j \<and> j < p + ?v \<longrightarrow> idx \<noteq> snd c + i * P + j)
           \<longrightarrow> heap s' (fst c) ! idx = heap s (fst c) ! idx"
    proof (intro allI impI)
      fix idx assume idx: "idx < length (heap s (fst c))"
        and ne: "\<forall>i j. m \<le> i \<and> i < M \<and> p \<le> j \<and> j < p + ?v \<longrightarrow> idx \<noteq> snd c + i * P + j"
      have "\<forall>i j. m + 4 \<le> i \<and> i < M \<and> p \<le> j \<and> j < p + ?v \<longrightarrow> idx \<noteq> snd c + i * P + j"
        using ne by simp
      with s'(5) idx have 1: "heap s' (fst c) ! idx = heap s2 (fst c) ! idx" by blast
      have "\<forall>i'<4. \<forall>j'<?v. idx \<noteq> snd ?c + i' * P + j'"
      proof (intro allI impI notI)
        fix i' j' assume a: "i' < (4::nat)" "j' < ?v" and eq: "idx = snd ?c + i' * P + j'"
        have "idx = snd c + (m + i') * P + (p + j')" using eq by (simp add: algebra_simps)
        moreover have "m \<le> m + i'" "m + i' < M" "p \<le> p + j'" "p + j' < p + ?v"
          using a mM by simp_all
        ultimately show False using ne by blast
      qed
      with s2(5) idx have "heap s2 (fst c) ! idx = heap s (fst c) ! idx" by blast
      with 1 show "heap s' (fst c) ! idx = heap s (fst c) ! idx" by simp
    qed
    have tr: "traced (chunk_access a b c M N P p ?v) s s'"
    proof -
      from tr2 obtain tr where
        t: "trace s2 = trace s @ map (\<lambda>i. Vle (padd ?c (i * P)) ?v) [0, 1, 2, 3] @ tr
              @ map (\<lambda>i. Vse (padd ?c (i * P)) ?v) [0, 1, 2, 3]"
          "\<forall>e\<in>set tr. red_load ?a ?b N P ?v e"
        by blast
      have "\<forall>e\<in>set (map (\<lambda>i. Vle (padd ?c (i * P)) ?v) [0, 1, 2, 3]). chunk_access a b c M N P p ?v e"
        by (rule ball_map4) (rule chunk_access_block(1) [OF mM])
      moreover have "\<forall>e\<in>set (map (\<lambda>i. Vse (padd ?c (i * P)) ?v) [0, 1, 2, 3]). chunk_access a b c M N P p ?v e"
        by (rule ball_map4) (rule chunk_access_block(2) [OF mM])
      moreover have "\<forall>e\<in>set tr. chunk_access a b c M N P p ?v e"
        using chunk_access_red_load [OF mM] t(2) by blast
      ultimately have "\<forall>e\<in>set (map (\<lambda>i. Vle (padd ?c (i * P)) ?v) [0, 1, 2, 3] @ tr
              @ map (\<lambda>i. Vse (padd ?c (i * P)) ?v) [0, 1, 2, 3]). chunk_access a b c M N P p ?v e"
        unfolding set_append by blast
      with t(1) have "traced (chunk_access a b c M N P p ?v) s s2"
        unfolding traced_def by blast
      then show ?thesis using s'(6) by (rule traced_trans)
    qed
    show ?thesis
      using run s'(1,3) s'(2) s2(2) vals frame tr by simp
  qed
qed

section \<open>The column loop and the whole product for even \<open>N\<close>\<close>

lemma col_loop_even:
  assumes N: "even N" "0 < N" and M: "4 dvd M"
    and g: "\<forall>x\<le>bsp. grant x = x" and bsp: "0 < bsp"
    and ac: "fst a \<noteq> fst c" and bc: "fst b \<noteq> fst c"
    and sa: "snd a + M * N \<le> length (heap s (fst a))"
    and sb: "snd b + N * P \<le> length (heap s (fst b))"
    and sc: "snd c + M * P \<le> length (heap s (fst c))"
    and pd: "bsp dvd p"
  shows "\<exists>s'. col_loop grant fma c a b M N P bsp p s = Some (Inr s')
     \<and> (\<forall>blk. blk \<noteq> fst c \<longrightarrow> heap s' blk = heap s blk)
     \<and> length (heap s' (fst c)) = length (heap s (fst c))
     \<and> (\<forall>i j. i < M \<and> p \<le> j \<and> j < P \<longrightarrow> elem s' c (i * P + j) =
          naive_fma fma (\<lambda>k. elem s a (i * N + k)) (\<lambda>k. elem s b (k * P + j)) (elem s c (i * P + j)) N)
     \<and> (\<forall>idx<length (heap s (fst c)).
           (\<forall>i j. i < M \<and> p \<le> j \<and> j < P \<longrightarrow> idx \<noteq> snd c + i * P + j)
           \<longrightarrow> heap s' (fst c) ! idx = heap s (fst c) ! idx)
     \<and> traced (mm_access a b c M N P bsp) s s'"
  using sa sb sc pd
proof (induction "P - p" arbitrary: p s rule: less_induct)
  case less
  note sa = less.prems(1) and sb = less.prems(2) and sc = less.prems(3) and pd = less.prems(4)
  show ?case
  proof (cases "p < P")
    case False
    then have "col_loop grant fma c a b M N P bsp p s = Some (Inr s)"
      by (subst col_loop.simps) simp
    then show ?thesis using False by (auto simp: traced_refl)
  next
    case True
    define p' where "p' = min (P - p) bsp"
    define s1 where "s1 = s\<lparr>vl := p'\<rparr>"
    have gp: "grant p' = p'" using g by (simp add: p'_def)
    have vs: "snd (vsetvli grant p' s) = s1" by (simp add: vsetvli_def gp s1_def)
    have s1: "heap s1 = heap s" "vl s1 = p'" "trace s1 = trace s" by (simp_all add: s1_def)
    have p'pos: "0 < p'" using True bsp by (simp add: p'_def)
    have pv: "p + vl s1 \<le> P" using True by (simp add: s1 p'_def)
    have "\<exists>s'. row_loop fma (padd c p) a (padd b p) M N P 0 s1 = Inr s' \<and> vl s' = vl s1
     \<and> (\<forall>blk. blk \<noteq> fst c \<longrightarrow> heap s' blk = heap s1 blk)
     \<and> length (heap s' (fst c)) = length (heap s1 (fst c))
     \<and> (\<forall>i j. 0 \<le> i \<and> i < M \<and> p \<le> j \<and> j < p + vl s1 \<longrightarrow> elem s' c (i * P + j) =
          naive_fma fma (\<lambda>k. elem s1 a (i * N + k)) (\<lambda>k. elem s1 b (k * P + j)) (elem s1 c (i * P + j)) N)
     \<and> (\<forall>idx<length (heap s1 (fst c)).
           (\<forall>i j. 0 \<le> i \<and> i < M \<and> p \<le> j \<and> j < p + vl s1 \<longrightarrow> idx \<noteq> snd c + i * P + j)
           \<longrightarrow> heap s' (fst c) ! idx = heap s1 (fst c) ! idx)
     \<and> traced (chunk_access a b c M N P p (vl s1)) s1 s'"
      by (rule row_loop_even [OF N M _ _ _ _ ac bc pv]) (simp_all add: s1 sa sb sc)
    then obtain s2 where
      e2: "row_loop fma (padd c p) a (padd b p) M N P 0 s1 = Inr s2" and
      s2: "\<forall>blk. blk \<noteq> fst c \<longrightarrow> heap s2 blk = heap s blk"
        "length (heap s2 (fst c)) = length (heap s (fst c))"
        "\<forall>i j. i < M \<and> p \<le> j \<and> j < p + p' \<longrightarrow> elem s2 c (i * P + j) =
          naive_fma fma (\<lambda>k. elem s a (i * N + k)) (\<lambda>k. elem s b (k * P + j)) (elem s c (i * P + j)) N"
        "\<forall>idx<length (heap s (fst c)).
           (\<forall>i j. i < M \<and> p \<le> j \<and> j < p + p' \<longrightarrow> idx \<noteq> snd c + i * P + j)
           \<longrightarrow> heap s2 (fst c) ! idx = heap s (fst c) ! idx"
        "traced (chunk_access a b c M N P p p') s s2"
      unfolding s1(2) heap_eq_elem [OF s1(1)] s1(1) by (auto simp: traced_def s1(3))
    have ha: "heap s2 (fst a) = heap s (fst a)" and hb: "heap s2 (fst b) = heap s (fst b)"
      using s2(1) ac bc by simp_all
    have ea: "\<And>k. elem s2 a k = elem s a k" and eb: "\<And>k. elem s2 b k = elem s b k"
      by (simp_all add: elem_def ha hb)
    have "\<exists>s'. col_loop grant fma c a b M N P bsp (p + bsp) s2 = Some (Inr s')
     \<and> (\<forall>blk. blk \<noteq> fst c \<longrightarrow> heap s' blk = heap s2 blk)
     \<and> length (heap s' (fst c)) = length (heap s2 (fst c))
     \<and> (\<forall>i j. i < M \<and> p + bsp \<le> j \<and> j < P \<longrightarrow> elem s' c (i * P + j) =
          naive_fma fma (\<lambda>k. elem s2 a (i * N + k)) (\<lambda>k. elem s2 b (k * P + j)) (elem s2 c (i * P + j)) N)
     \<and> (\<forall>idx<length (heap s2 (fst c)).
           (\<forall>i j. i < M \<and> p + bsp \<le> j \<and> j < P \<longrightarrow> idx \<noteq> snd c + i * P + j)
           \<longrightarrow> heap s' (fst c) ! idx = heap s2 (fst c) ! idx)
     \<and> traced (mm_access a b c M N P bsp) s2 s'"
    proof (rule less.hyps)
      show "P - (p + bsp) < P - p" using True bsp by simp
      show "snd a + M * N \<le> length (heap s2 (fst a))" using sa ha by simp
      show "snd b + N * P \<le> length (heap s2 (fst b))" using sb hb by simp
      show "snd c + M * P \<le> length (heap s2 (fst c))" using sc s2(2) by simp
      show "bsp dvd p + bsp" using pd by simp
    qed
    then obtain s' where
      e3: "col_loop grant fma c a b M N P bsp (p + bsp) s2 = Some (Inr s')" and
      s': "\<forall>blk. blk \<noteq> fst c \<longrightarrow> heap s' blk = heap s2 blk"
        "length (heap s' (fst c)) = length (heap s (fst c))"
        "\<forall>i j. i < M \<and> p + bsp \<le> j \<and> j < P \<longrightarrow> elem s' c (i * P + j) =
          naive_fma fma (\<lambda>k. elem s a (i * N + k)) (\<lambda>k. elem s b (k * P + j)) (elem s2 c (i * P + j)) N"
        "\<forall>idx<length (heap s (fst c)).
           (\<forall>i j. i < M \<and> p + bsp \<le> j \<and> j < P \<longrightarrow> idx \<noteq> snd c + i * P + j)
           \<longrightarrow> heap s' (fst c) ! idx = heap s2 (fst c) ! idx"
        "traced (mm_access a b c M N P bsp) s2 s'"
      unfolding s2(2) ea eb by blast
    have run: "col_loop grant fma c a b M N P bsp p s = Some (Inr s')"
      by (subst col_loop.simps) (simp only: True if_True Let_def p'_def [symmetric] vs e2 e3 sum.case)
    have in_len: "\<And>i j. i < M \<Longrightarrow> j < P \<Longrightarrow> snd c + i * P + j < length (heap s (fst c))"
    proof -
      fix i j assume i: "i < M" and j: "j < P"
      have "i * P + j < Suc i * P" using j by simp
      also have "\<dots> \<le> M * P" using i by (intro mult_le_mono1) simp
      finally show "snd c + i * P + j < length (heap s (fst c))" using sc by simp
    qed
    have vals: "\<forall>i j. i < M \<and> p \<le> j \<and> j < P \<longrightarrow> elem s' c (i * P + j) =
          naive_fma fma (\<lambda>k. elem s a (i * N + k)) (\<lambda>k. elem s b (k * P + j)) (elem s c (i * P + j)) N"
    proof (intro allI impI, elim conjE)
      fix i j assume i: "i < M" and j: "p \<le> j" "j < P"
      have l: "snd c + i * P + j < length (heap s (fst c))" by (rule in_len [OF i j(2)])
      show "elem s' c (i * P + j) =
          naive_fma fma (\<lambda>k. elem s a (i * N + k)) (\<lambda>k. elem s b (k * P + j)) (elem s c (i * P + j)) N"
      proof (cases "j < p + p'")
        case True
        have "\<forall>i0 j0. i0 < M \<and> p + bsp \<le> j0 \<and> j0 < P \<longrightarrow> snd c + i * P + j \<noteq> snd c + i0 * P + j0"
        proof (intro allI impI notI, elim conjE)
          fix i0 j0 assume a: "p + bsp \<le> j0" "j0 < P"
            and eq: "snd c + i * P + j = snd c + i0 * P + j0"
          from eq idx_unique [of j P j0 i i0] j a have "j = j0" by simp
          with a True show False by (simp add: p'_def)
        qed
        with s'(4) l have "heap s' (fst c) ! (snd c + i * P + j) = heap s2 (fst c) ! (snd c + i * P + j)"
          by blast
        then have "elem s' c (i * P + j) = elem s2 c (i * P + j)"
          by (simp add: elem_def add.assoc)
        with s2(3) i j True show ?thesis by simp
      next
        case False
        with j have jb: "p + bsp \<le> j" by (simp add: p'_def min_def split: if_splits)
        have "\<forall>i0 j0. i0 < M \<and> p \<le> j0 \<and> j0 < p + p' \<longrightarrow> snd c + i * P + j \<noteq> snd c + i0 * P + j0"
        proof (intro allI impI notI, elim conjE)
          fix i0 j0 assume a: "p \<le> j0" "j0 < p + p'"
            and eq: "snd c + i * P + j = snd c + i0 * P + j0"
          have "j0 < P" using a pv by (simp add: s1)
          with eq idx_unique [of j P j0 i i0] j have "j = j0" by simp
          with a False show False by simp
        qed
        with s2(4) l have "heap s2 (fst c) ! (snd c + i * P + j) = heap s (fst c) ! (snd c + i * P + j)"
          by blast
        then have "elem s2 c (i * P + j) = elem s c (i * P + j)"
          by (simp add: elem_def add.assoc)
        with s'(3) i j jb show ?thesis by simp
      qed
    qed
    have frame: "\<forall>idx<length (heap s (fst c)).
           (\<forall>i j. i < M \<and> p \<le> j \<and> j < P \<longrightarrow> idx \<noteq> snd c + i * P + j)
           \<longrightarrow> heap s' (fst c) ! idx = heap s (fst c) ! idx"
    proof (intro allI impI)
      fix idx assume idx: "idx < length (heap s (fst c))"
        and ne: "\<forall>i j. i < M \<and> p \<le> j \<and> j < P \<longrightarrow> idx \<noteq> snd c + i * P + j"
      have "\<forall>i j. i < M \<and> p + bsp \<le> j \<and> j < P \<longrightarrow> idx \<noteq> snd c + i * P + j"
        using ne by simp
      with s'(4) idx have 1: "heap s' (fst c) ! idx = heap s2 (fst c) ! idx" by blast
      have "\<forall>i j. i < M \<and> p \<le> j \<and> j < p + p' \<longrightarrow> idx \<noteq> snd c + i * P + j"
        using ne pv by (simp add: s1)
      with s2(4) idx have "heap s2 (fst c) ! idx = heap s (fst c) ! idx" by blast
      with 1 show "heap s' (fst c) ! idx = heap s (fst c) ! idx" by simp
    qed
    have "\<And>e. chunk_access a b c M N P p p' e \<Longrightarrow> mm_access a b c M N P bsp e"
      unfolding mm_access_def p'_def using True pd by blast
    with s2(5) have "traced (mm_access a b c M N P bsp) s s2" by (rule traced_mono)
    then have tr: "traced (mm_access a b c M N P bsp) s s'" using s'(5) by (rule traced_trans)
    show ?thesis
      using run s'(1,2) s2(1) vals frame tr by simp
  qed
qed

lemma rvv_grant_fits: "rvv_grant vlmax grant \<Longrightarrow> x \<le> grant P \<Longrightarrow> grant x = x"
  unfolding rvv_grant_def by (meson le_trans)

lemma rvv_grant_pos: "rvv_grant vlmax grant \<Longrightarrow> 0 < P \<Longrightarrow> 0 < grant P"
  unfolding rvv_grant_def
  by (metis le_eq_less_or_eq linorder_not_less mult_0_right nat_mult_le_cancel_disj not_gr_zero zero_less_numeral)

lemma matmul_even:
  assumes hw: "rvv_grant vlmax grant"
    and N: "even N" "0 < N" and M: "4 dvd M" and P: "0 < P"
    and ac: "fst a \<noteq> fst c" and bc: "fst b \<noteq> fst c"
    and sa: "snd a + M * N \<le> length (heap st (fst a))"
    and sb: "snd b + N * P \<le> length (heap st (fst b))"
    and sc: "snd c + M * P \<le> length (heap st (fst c))"
  shows "\<exists>st'. matmul grant fma c a b M N P st = Some (Inr st')
     \<and> (\<forall>blk. blk \<noteq> fst c \<longrightarrow> heap st' blk = heap st blk)
     \<and> length (heap st' (fst c)) = length (heap st (fst c))
     \<and> (\<forall>i<M. \<forall>j<P. elem st' c (i * P + j) =
          naive_fma fma (\<lambda>k. elem st a (i * N + k)) (\<lambda>k. elem st b (k * P + j)) (elem st c (i * P + j)) N)
     \<and> (\<forall>idx<length (heap st (fst c)). (\<forall>i<M. \<forall>j<P. idx \<noteq> snd c + i * P + j)
           \<longrightarrow> heap st' (fst c) ! idx = heap st (fst c) ! idx)
     \<and> traced (mm_access a b c M N P (grant P)) st st'"
proof -
  define s0 where "s0 = st\<lparr>vl := grant P\<rparr>"
  have s0: "heap s0 = heap st" "trace s0 = trace st" by (simp_all add: s0_def)
  have g: "\<forall>x\<le>grant P. grant x = x" using rvv_grant_fits [OF hw] by blast
  have pos: "0 < grant P" by (rule rvv_grant_pos [OF hw P])
  have "\<exists>s'. col_loop grant fma c a b M N P (grant P) 0 s0 = Some (Inr s')
     \<and> (\<forall>blk. blk \<noteq> fst c \<longrightarrow> heap s' blk = heap s0 blk)
     \<and> length (heap s' (fst c)) = length (heap s0 (fst c))
     \<and> (\<forall>i j. i < M \<and> 0 \<le> j \<and> j < P \<longrightarrow> elem s' c (i * P + j) =
          naive_fma fma (\<lambda>k. elem s0 a (i * N + k)) (\<lambda>k. elem s0 b (k * P + j)) (elem s0 c (i * P + j)) N)
     \<and> (\<forall>idx<length (heap s0 (fst c)).
           (\<forall>i j. i < M \<and> 0 \<le> j \<and> j < P \<longrightarrow> idx \<noteq> snd c + i * P + j)
           \<longrightarrow> heap s' (fst c) ! idx = heap s0 (fst c) ! idx)
     \<and> traced (mm_access a b c M N P (grant P)) s0 s'"
    by (rule col_loop_even [OF N M g pos ac bc]) (simp_all add: s0 sa sb sc)
  then obtain s' where
    e: "col_loop grant fma c a b M N P (grant P) 0 s0 = Some (Inr s')" and
    s': "\<forall>blk. blk \<noteq> fst c \<longrightarrow> heap s' blk = heap st blk"
      "length (heap s' (fst c)) = length (heap st (fst c))"
      "\<forall>i j. i < M \<and> j < P \<longrightarrow> elem s' c (i * P + j) =
          naive_fma fma (\<lambda>k. elem st a (i * N + k)) (\<lambda>k. elem st b (k * P + j)) (elem st c (i * P + j)) N"
      "\<forall>idx<length (heap st (fst c)).
           (\<forall>i j. i < M \<and> j < P \<longrightarrow> idx \<noteq> snd c + i * P + j)
           \<longrightarrow> heap s' (fst c) ! idx = heap st (fst c) ! idx"
      "traced (mm_access a b c M N P (grant P)) st s'"
    unfolding heap_eq_elem [OF s0(1)] s0(1) by (auto simp: traced_def s0(2))
  have run: "matmul grant fma c a b M N P st = Some (Inr s')"
    by (simp add: matmul_def vsetvli_def e [unfolded s0_def])
  show ?thesis
    using run s' by (intro exI [of _ s']) (simp add: imp_conjL)
qed

section \<open>What the kernel does for odd \<open>N\<close>\<close>

lemma matmul_loop_odd:
  fixes c0 :: "nat \<Rightarrow> nat \<Rightarrow> 'a"
  assumes "odd N" "even n" "n \<le> N + 1"
    and A: "snd a' + 4 * N + 2 \<le> length (heap s (fst a'))"
    and B: "\<forall>k\<le>N + 1. in_bounds s (padd b' (k * P)) (vl s)"
    and b: "b = padd b' ((n + 1) * P)"
    and t: "\<forall>i<4. scal t i = elem s a' (i * N + n)"
    and v16: "\<forall>j<vl s. vrf s V16 j = elem s b' (n * P + j)"
    and v20: "n = N + 1 \<longrightarrow> (\<forall>j<vl s. vrf s V20 j = elem s b' (N * P + j))"
    and acc: "\<forall>i<4. \<forall>j<vl s. vrf s (acc_reg i) j =
        naive_fma fma (\<lambda>k. elem s a' (i * N + k)) (\<lambda>k. elem s b' (k * P + j)) (c0 i j) n"
  shows "\<exists>t' s'. matmul_loop fma a' N P n b t s = Inr (t', s') \<and> heap s' = heap s \<and> vl s' = vl s
     \<and> (\<forall>i<4. scal t' i = elem s a' (i * N + (N + 1)))
     \<and> (\<forall>j<vl s. vrf s' V20 j = elem s b' (N * P + j))
     \<and> (\<forall>i<4. \<forall>j<vl s. vrf s' (acc_reg i) j =
          naive_fma fma (\<lambda>k. elem s a' (i * N + k)) (\<lambda>k. elem s b' (k * P + j)) (c0 i j) (N + 1))
     \<and> (\<exists>tr. trace s' = trace s @ tr \<and> (n < N \<longrightarrow> Vle (padd b' (N * P)) (vl s) \<in> set tr))"
  using assms
proof (induction "N + 1 - n" arbitrary: n b t s rule: less_induct)
  case less
  note A = less.prems(4) and B = less.prems(5) and b = less.prems(6) and t = less.prems(7)
    and v16 = less.prems(8) and v20 = less.prems(9) and acc = less.prems(10)
  let ?Ar = "\<lambda>i k. elem s a' (i * N + k)"
  let ?Bc = "\<lambda>j k. elem s b' (k * P + j)"
  show ?case
  proof (cases "n < N")
    case False
    with less.prems(1-3) have nN: "n = N + 1" by presburger
    have "matmul_loop fma a' N P n b t s = Inr (t, s)"
      using False by (subst matmul_loop.simps) simp
    then show ?thesis using t v20 acc nN by auto
  next
    case True
    with less.prems(1,2) have n1: "n + 1 \<le> N" and nb: "n + 1 \<noteq> N - 1" and n2: "n + 2 \<le> N + 1"
      by presburger+
    \<comment> \<open>line 72: load row \<open>n + 1\<close> of B into \<open>v20\<close>\<close>
    have bnd1: "in_bounds s b (vl s)"
      using B [rule_format, of "n + 1"] n1 b by simp
    define s1 where "s1 = s\<lparr>vrf := (vrf s)(V20 := (\<lambda>j. if j < vl s then elem s b j else vrf s V20 j)),
                         trace := trace s @ [Vle b (vl s)]\<rparr>"
    have e1: "vle64 V20 b s = Inr s1"
      using vle64_ok [OF bnd1] by (simp add: s1_def)
    have s1: "heap s1 = heap s" "vl s1 = vl s" "vrf s1 V16 = vrf s V16"
      "\<And>i. i < 4 \<Longrightarrow> vrf s1 (acc_reg i) = vrf s (acc_reg i)"
      "\<And>j. j < vl s \<Longrightarrow> vrf s1 V20 j = elem s b' ((n + 1) * P + j)"
      "trace s1 = trace s @ [Vle (padd b' ((n + 1) * P)) (vl s)]"
      by (auto simp: s1_def lt4 b)
    \<comment> \<open>lines 77-84\<close>
    have A1: "snd (padd a' (n + 1)) + 3 * N < length (heap s1 (fst (padd a' (n + 1))))"
      using A n1 by (simp add: s1)
    from fmacc_fld4_ok [OF A1, of V16 fma t] obtain t1 s2 where
      e2: "fmacc_fld4 fma V16 (padd a' (n + 1)) N t s1 = Inr (t1, s2)" and
      s2: "heap s2 = heap s1" "vl s2 = vl s1" "vrf s2 V16 = vrf s1 V16" "vrf s2 V20 = vrf s1 V20"
        "\<forall>i<4. scal t1 i = elem s1 (padd a' (n + 1)) (i * N)"
        "\<forall>i<4. \<forall>j<vl s1. vrf s2 (acc_reg i) j = fma (scal t i) (vrf s1 V16 j) (vrf s1 (acc_reg i) j)"
        "trace s2 = trace s1 @ map (\<lambda>i. Fld (padd (padd a' (n + 1)) (i * N))) [0, 1, 2, 3]"
      by blast
    have t1: "\<forall>i<4. scal t1 i = ?Ar i (n + 1)"
      using s2(5) by (simp add: heap_eq_elem [OF s1(1)] add.commute)
    have acc2: "\<forall>i<4. \<forall>j<vl s. vrf s2 (acc_reg i) j = naive_fma fma (?Ar i) (?Bc j) (c0 i j) (Suc n)"
      using s2(6) s1 t v16 acc by simp
    have v20': "\<forall>j<vl s. vrf s2 V20 j = ?Bc j (n + 1)"
      using s2(4) s1(5) by simp
    \<comment> \<open>line 86: the test fails, since \<open>n + 1\<close> is odd and \<open>N - 1\<close> is even\<close>
    \<comment> \<open>line 90: load row \<open>n + 2\<close> of B into \<open>v16\<close>\<close>
    have hs2: "heap s2 = heap s" "vl s2 = vl s" using s1 s2 by simp_all
    have bnd3: "in_bounds s2 (padd b P) (vl s2)"
      using B [rule_format, of "n + 2"] n2 b
      by (simp add: heap_eq_in_bounds [OF hs2(1)] hs2 add.commute)
    define s3 where "s3 = s2\<lparr>vrf := (vrf s2)(V16 := (\<lambda>j. if j < vl s2 then elem s2 (padd b P) j else vrf s2 V16 j)),
                         trace := trace s2 @ [Vle (padd b P) (vl s2)]\<rparr>"
    have e3: "vle64 V16 (padd b P) s2 = Inr s3"
      using vle64_ok [OF bnd3] by (simp add: s3_def)
    have s3: "heap s3 = heap s" "vl s3 = vl s" "vrf s3 V20 = vrf s2 V20"
      "\<And>i. i < 4 \<Longrightarrow> vrf s3 (acc_reg i) = vrf s2 (acc_reg i)"
      "\<And>j. j < vl s \<Longrightarrow> vrf s3 V16 j = elem s b' ((n + 2) * P + j)"
      "trace s3 = trace s2 @ [Vle (padd b' ((n + 2) * P)) (vl s)]"
      using hs2 by (auto simp: s3_def lt4 b heap_eq_elem [OF hs2(1)] add.commute add.left_commute)
    \<comment> \<open>lines 93-100\<close>
    have A3: "snd (padd a' (n + 2)) + 3 * N < length (heap s3 (fst (padd a' (n + 2))))"
      using A n2 by (simp add: s3)
    from fmacc_fld4_ok [OF A3, of V20 fma t1] obtain t2 s4 where
      e4: "fmacc_fld4 fma V20 (padd a' (n + 2)) N t1 s3 = Inr (t2, s4)" and
      s4: "heap s4 = heap s3" "vl s4 = vl s3" "vrf s4 V16 = vrf s3 V16" "vrf s4 V20 = vrf s3 V20"
        "\<forall>i<4. scal t2 i = elem s3 (padd a' (n + 2)) (i * N)"
        "\<forall>i<4. \<forall>j<vl s3. vrf s4 (acc_reg i) j = fma (scal t1 i) (vrf s3 V20 j) (vrf s3 (acc_reg i) j)"
        "trace s4 = trace s3 @ map (\<lambda>i. Fld (padd (padd a' (n + 2)) (i * N))) [0, 1, 2, 3]"
      by blast
    have hs4: "heap s4 = heap s" "vl s4 = vl s" using s4 s3 by simp_all
    have t2: "\<forall>i<4. scal t2 i = elem s4 a' (i * N + (n + 2))"
      using s4(5) by (simp add: heap_eq_elem [OF s3(1)] heap_eq_elem [OF hs4(1)] add.commute)
    have acc4: "\<forall>i<4. \<forall>j<vl s4. vrf s4 (acc_reg i) j =
        naive_fma fma (\<lambda>k. elem s4 a' (i * N + k)) (\<lambda>k. elem s4 b' (k * P + j)) (c0 i j) (n + 2)"
      using s4(6) s3 t1 v20' acc2 by (simp add: heap_eq_elem [OF hs4(1)] hs4)
    have v16': "\<forall>j<vl s4. vrf s4 V16 j = elem s4 b' ((n + 2) * P + j)"
      using s4(3) s3(5) by (simp add: heap_eq_elem [OF hs4(1)] hs4)
    have v20'': "n + 2 = N + 1 \<longrightarrow> (\<forall>j<vl s4. vrf s4 V20 j = elem s4 b' (N * P + j))"
      using s4(4) s3(3) v20' by (auto simp: heap_eq_elem [OF hs4(1)] hs4)
    have tr4: "trace s4 = trace s @ (Vle (padd b' ((n + 1) * P)) (vl s)
            # map (\<lambda>i. Fld (padd (padd a' (n + 1)) (i * N))) [0, 1, 2, 3]
            @ Vle (padd b' ((n + 2) * P)) (vl s)
            # map (\<lambda>i. Fld (padd (padd a' (n + 2)) (i * N))) [0, 1, 2, 3])"
      unfolding s4(7) s3(6) s2(7) s1(6) by simp
    have IH: "\<exists>t' s'. matmul_loop fma a' N P (n + 2) (padd (padd b P) P) t2 s4 = Inr (t', s')
       \<and> heap s' = heap s4 \<and> vl s' = vl s4
       \<and> (\<forall>i<4. scal t' i = elem s4 a' (i * N + (N + 1)))
       \<and> (\<forall>j<vl s4. vrf s' V20 j = elem s4 b' (N * P + j))
       \<and> (\<forall>i<4. \<forall>j<vl s4. vrf s' (acc_reg i) j =
          naive_fma fma (\<lambda>k. elem s4 a' (i * N + k)) (\<lambda>k. elem s4 b' (k * P + j)) (c0 i j) (N + 1))
       \<and> (\<exists>tr. trace s' = trace s4 @ tr \<and> (n + 2 < N \<longrightarrow> Vle (padd b' (N * P)) (vl s4) \<in> set tr))"
    proof (rule less.hyps)
      show "N + 1 - (n + 2) < N + 1 - n" using n2 by simp
      show "odd N" by fact
      show "even (n + 2)" using less.prems(2) by simp
      show "n + 2 \<le> N + 1" by fact
      show "snd a' + 4 * N + 2 \<le> length (heap s4 (fst a'))" using A hs4 by simp
      show "\<forall>k\<le>N + 1. in_bounds s4 (padd b' (k * P)) (vl s4)"
        using B by (simp add: heap_eq_in_bounds [OF hs4(1)] hs4)
      show "padd (padd b P) P = padd b' ((n + 2 + 1) * P)" by (simp add: b algebra_simps)
      show "\<forall>i<4. scal t2 i = elem s4 a' (i * N + (n + 2))" by fact
      show "\<forall>j<vl s4. vrf s4 V16 j = elem s4 b' ((n + 2) * P + j)" by fact
      show "n + 2 = N + 1 \<longrightarrow> (\<forall>j<vl s4. vrf s4 V20 j = elem s4 b' (N * P + j))" by fact
      show "\<forall>i<4. \<forall>j<vl s4. vrf s4 (acc_reg i) j =
        naive_fma fma (\<lambda>k. elem s4 a' (i * N + k)) (\<lambda>k. elem s4 b' (k * P + j)) (c0 i j) (n + 2)"
        by fact
    qed
    have unf: "matmul_loop fma a' N P n b t s = matmul_loop fma a' N P (n + 2) (padd (padd b P) P) t2 s4"
      by (subst matmul_loop.simps)
        (simp only: True if_True e1 e2 e3 e4 sum.case prod.case nb if_False)
    from IH obtain t' s' tr' where
      r: "matmul_loop fma a' N P (n + 2) (padd (padd b P) P) t2 s4 = Inr (t', s')"
        "heap s' = heap s4" "vl s' = vl s4"
        "\<forall>i<4. scal t' i = elem s4 a' (i * N + (N + 1))"
        "\<forall>j<vl s4. vrf s' V20 j = elem s4 b' (N * P + j)"
        "\<forall>i<4. \<forall>j<vl s4. vrf s' (acc_reg i) j =
          naive_fma fma (\<lambda>k. elem s4 a' (i * N + k)) (\<lambda>k. elem s4 b' (k * P + j)) (c0 i j) (N + 1)"
        "trace s' = trace s4 @ tr'" "n + 2 < N \<longrightarrow> Vle (padd b' (N * P)) (vl s4) \<in> set tr'"
      by blast
    have "Vle (padd b' (N * P)) (vl s) \<in> set (Vle (padd b' ((n + 1) * P)) (vl s)
            # map (\<lambda>i. Fld (padd (padd a' (n + 1)) (i * N))) [0, 1, 2, 3]
            @ Vle (padd b' ((n + 2) * P)) (vl s)
            # map (\<lambda>i. Fld (padd (padd a' (n + 2)) (i * N))) [0, 1, 2, 3]) \<union> set tr'"
    proof (cases "n + 2 < N")
      case True
      with r(8) show ?thesis by (simp add: hs4)
    next
      case False
      with n1 less.prems(1,2) have "n + 1 = N" by presburger
      then show ?thesis by simp
    qed
    then have trf: "\<exists>tr. trace s' = trace s @ tr \<and> (n < N \<longrightarrow> Vle (padd b' (N * P)) (vl s) \<in> set tr)"
      unfolding r(7) tr4 by (metis append.assoc set_append)
    show ?thesis
      unfolding unf using r(1-6) trf
      by (simp add: heap_eq_elem [OF hs4(1)] hs4)
  qed
qed

lemma kernel_odd:
  assumes N: "odd N"
    and A: "snd a + 4 * N + 2 \<le> length (heap st (fst a))"
    and B: "\<forall>k\<le>N + 1. in_bounds st (padd b (k * P)) (vl st)"
    and C: "\<forall>i<4. in_bounds st (padd c (i * P)) (vl st)"
    and le: "vl st \<le> P"
  shows "\<exists>st'. matmul_vec_4x4 fma c a b N P st = Inr st' \<and> vl st' = vl st
     \<and> (\<forall>blk. blk \<noteq> fst c \<longrightarrow> heap st' blk = heap st blk)
     \<and> length (heap st' (fst c)) = length (heap st (fst c))
     \<and> (\<forall>i<4. \<forall>j<vl st. elem st' c (i * P + j) =
          fma (elem st a (i * N + (N + 1))) (elem st b (N * P + j))
            (naive_fma fma (\<lambda>k. elem st a (i * N + k)) (\<lambda>k. elem st b (k * P + j))
               (vrf st (acc_reg i) j) (N + 1)))
     \<and> (\<forall>idx<length (heap st (fst c)). (\<forall>i<4. \<forall>j<vl st. idx \<noteq> snd c + i * P + j)
           \<longrightarrow> heap st' (fst c) ! idx = heap st (fst c) ! idx)
     \<and> Vle (padd b (N * P)) (vl st) \<in> set (trace st')"
proof -
  let ?Ar = "\<lambda>i k. elem st a (i * N + k)"
  let ?Bc = "\<lambda>j k. elem st b (k * P + j)"
  from N have Npos: "0 < N" by (cases N) simp_all
  \<comment> \<open>line 59\<close>
  have bnd0: "in_bounds st b (vl st)" using B [rule_format, of 0] by simp
  define s0 where "s0 = st\<lparr>vrf := (vrf st)(V16 := (\<lambda>j. if j < vl st then elem st b j else vrf st V16 j)),
                         trace := trace st @ [Vle b (vl st)]\<rparr>"
  have e0: "vle64 V16 b st = Inr s0"
    using vle64_ok [OF bnd0] by (simp add: s0_def)
  have s0: "heap s0 = heap st" "vl s0 = vl st"
    "\<And>i. i < 4 \<Longrightarrow> vrf s0 (acc_reg i) = vrf st (acc_reg i)"
    "\<And>j. j < vl st \<Longrightarrow> vrf s0 V16 j = elem st b j"
    by (auto simp: s0_def lt4)
  \<comment> \<open>lines 62-65\<close>
  have A0: "snd a + 3 * N < length (heap s0 (fst a))" using A Npos by (simp add: s0)
  from fld4_ok [OF A0] obtain t s1 where
    e1: "fld4 a N s0 = Inr (t, s1)" and
    s1: "heap s1 = heap s0" "vl s1 = vl s0" "vrf s1 = vrf s0"
      "\<forall>i<4. scal t i = elem s0 a (i * N)"
    by blast
  have h1: "heap s1 = heap st" "vl s1 = vl st" using s0 s1 by simp_all
  \<comment> \<open>lines 70-101\<close>
  have "\<exists>t' s'. matmul_loop fma a N P 0 (padd b P) t s1 = Inr (t', s') \<and> heap s' = heap s1 \<and> vl s' = vl s1
     \<and> (\<forall>i<4. scal t' i = elem s1 a (i * N + (N + 1)))
     \<and> (\<forall>j<vl s1. vrf s' V20 j = elem s1 b (N * P + j))
     \<and> (\<forall>i<4. \<forall>j<vl s1. vrf s' (acc_reg i) j =
          naive_fma fma (\<lambda>k. elem s1 a (i * N + k)) (\<lambda>k. elem s1 b (k * P + j)) (vrf st (acc_reg i) j) (N + 1))
     \<and> (\<exists>tr. trace s' = trace s1 @ tr \<and> (0 < N \<longrightarrow> Vle (padd b (N * P)) (vl s1) \<in> set tr))"
  proof (rule matmul_loop_odd)
    show "odd N" "even (0::nat)" "0 \<le> N + 1" using N by simp_all
    show "snd a + 4 * N + 2 \<le> length (heap s1 (fst a))" using A h1 by simp
    show "\<forall>k\<le>N + 1. in_bounds s1 (padd b (k * P)) (vl s1)"
      using B by (simp add: heap_eq_in_bounds [OF h1(1)] h1)
    show "padd b P = padd b ((0 + 1) * P)" by simp
    show "\<forall>i<4. scal t i = elem s1 a (i * N + 0)"
      using s1(4) by (simp add: heap_eq_elem [OF s0(1)] heap_eq_elem [OF h1(1)])
    show "\<forall>j<vl s1. vrf s1 V16 j = elem s1 b (0 * P + j)"
      using s0(4) s1(3) by (simp add: heap_eq_elem [OF h1(1)] h1)
    show "0 = N + 1 \<longrightarrow> (\<forall>j<vl s1. vrf s1 V20 j = elem s1 b (N * P + j))" by simp
    show "\<forall>i<4. \<forall>j<vl s1. vrf s1 (acc_reg i) j =
        naive_fma fma (\<lambda>k. elem s1 a (i * N + k)) (\<lambda>k. elem s1 b (k * P + j)) (vrf st (acc_reg i) j) 0"
      using s0(3) s1(3) by simp
  qed
  then obtain t' s2 tr where
    e2: "matmul_loop fma a N P 0 (padd b P) t s1 = Inr (t', s2)" and
    s2: "heap s2 = heap s1" "vl s2 = vl s1"
      "\<forall>i<4. scal t' i = elem s1 a (i * N + (N + 1))"
      "\<forall>j<vl s1. vrf s2 V20 j = elem s1 b (N * P + j)"
      "\<forall>i<4. \<forall>j<vl s1. vrf s2 (acc_reg i) j =
          naive_fma fma (\<lambda>k. elem s1 a (i * N + k)) (\<lambda>k. elem s1 b (k * P + j)) (vrf st (acc_reg i) j) (N + 1)"
      "trace s2 = trace s1 @ tr" "Vle (padd b (N * P)) (vl s1) \<in> set tr"
    using Npos by blast
  have h2: "heap s2 = heap st" "vl s2 = vl st" using s2 h1 by simp_all
  \<comment> \<open>lines 104-111\<close>
  have C2: "\<forall>i<4. in_bounds s2 (padd c (i * P)) (vl s2)"
    using C by (simp add: heap_eq_in_bounds [OF h2(1)] h2)
  have le2: "vl s2 \<le> P" using le h2 by simp
  from fmacc_vse4_ok [OF C2 le2, of fma t'] obtain s3 where
    e3: "fmacc_vse4 fma c P t' s2 = Inr s3" and
    s3: "vl s3 = vl s2" "\<forall>blk. blk \<noteq> fst c \<longrightarrow> heap s3 blk = heap s2 blk"
      "length (heap s3 (fst c)) = length (heap s2 (fst c))"
      "\<forall>i<4. \<forall>j<vl s2. elem s3 c (i * P + j) = fma (scal t' i) (vrf s2 V20 j) (vrf s2 (acc_reg i) j)"
      "\<forall>idx<length (heap s2 (fst c)). (\<forall>i<4. \<forall>j<vl s2. idx \<noteq> snd c + i * P + j)
           \<longrightarrow> heap s3 (fst c) ! idx = heap s2 (fst c) ! idx"
      "trace s3 = trace s2 @ map (\<lambda>i. Vse (padd c (i * P)) (vl s2)) [0, 1, 2, 3]"
    by blast
  have run: "matmul_vec_4x4 fma c a b N P st = Inr s3"
    unfolding matmul_vec_4x4_def Let_def
    by (simp only: e0 e1 e2 e3 sum.case prod.case)
  have vals: "\<forall>i<4. \<forall>j<vl st. elem s3 c (i * P + j) =
          fma (?Ar i (N + 1)) (?Bc j N) (naive_fma fma (?Ar i) (?Bc j) (vrf st (acc_reg i) j) (N + 1))"
    using s3(4) s2(3,4,5) h1 h2 by (simp add: heap_eq_elem [OF h1(1)])
  have tr: "Vle (padd b (N * P)) (vl st) \<in> set (trace s3)"
    unfolding s3(6) s2(6) using s2(7) h1 by simp
  show ?thesis
    using run s3(1,2,3,5) h2 vals tr by simp
qed

lemma block_odd:
  assumes N: "odd N"
    and A: "snd a + 4 * N + 2 \<le> length (heap st (fst a))"
    and B: "\<forall>k\<le>N + 1. in_bounds st (padd b (k * P)) (vl st)"
    and C: "\<forall>i<4. in_bounds st (padd c (i * P)) (vl st)"
    and le: "vl st \<le> P"
  shows "\<exists>st1 st2. matmul_vec_4x4_slice_init c P st = Inr st1
     \<and> matmul_vec_4x4 fma c a b N P st1 = Inr st2 \<and> vl st2 = vl st
     \<and> (\<forall>blk. blk \<noteq> fst c \<longrightarrow> heap st2 blk = heap st blk)
     \<and> length (heap st2 (fst c)) = length (heap st (fst c))
     \<and> (\<forall>i<4. \<forall>j<vl st. elem st2 c (i * P + j) =
          fma (elem st a (i * N + (N + 1))) (elem st b (N * P + j))
            (naive_fma fma (\<lambda>k. elem st a (i * N + k)) (\<lambda>k. elem st b (k * P + j))
               (elem st c (i * P + j)) (N + 1)))
     \<and> (\<forall>idx<length (heap st (fst c)). (\<forall>i<4. \<forall>j<vl st. idx \<noteq> snd c + i * P + j)
           \<longrightarrow> heap st2 (fst c) ! idx = heap st (fst c) ! idx)
     \<and> Vle (padd b (N * P)) (vl st) \<in> set (trace st2)"
proof -
  from slice_init_ok [OF C] obtain s1 where
    e1: "matmul_vec_4x4_slice_init c P st = Inr s1" and
    s1: "heap s1 = heap st" "vl s1 = vl st"
      "\<forall>i<4. \<forall>j<vl st. vrf s1 (acc_reg i) j = elem st c (i * P + j)"
    by blast
  have A1: "snd a + 4 * N + 2 \<le> length (heap s1 (fst a))" using A s1 by simp
  have B1: "\<forall>k\<le>N + 1. in_bounds s1 (padd b (k * P)) (vl s1)"
    using B by (simp add: heap_eq_in_bounds [OF s1(1)] s1)
  have C1: "\<forall>i<4. in_bounds s1 (padd c (i * P)) (vl s1)"
    using C by (simp add: heap_eq_in_bounds [OF s1(1)] s1)
  have le1: "vl s1 \<le> P" using le s1 by simp
  from kernel_odd [OF N A1 B1 C1 le1, of fma] obtain s2 where
    e2: "matmul_vec_4x4 fma c a b N P s1 = Inr s2" and
    s2: "vl s2 = vl s1" "\<forall>blk. blk \<noteq> fst c \<longrightarrow> heap s2 blk = heap s1 blk"
      "length (heap s2 (fst c)) = length (heap s1 (fst c))"
      "\<forall>i<4. \<forall>j<vl s1. elem s2 c (i * P + j) =
          fma (elem s1 a (i * N + (N + 1))) (elem s1 b (N * P + j))
            (naive_fma fma (\<lambda>k. elem s1 a (i * N + k)) (\<lambda>k. elem s1 b (k * P + j))
               (vrf s1 (acc_reg i) j) (N + 1))"
      "\<forall>idx<length (heap s1 (fst c)). (\<forall>i<4. \<forall>j<vl s1. idx \<noteq> snd c + i * P + j)
           \<longrightarrow> heap s2 (fst c) ! idx = heap s1 (fst c) ! idx"
      "Vle (padd b (N * P)) (vl s1) \<in> set (trace s2)"
    by blast
  have vals: "\<forall>i<4. \<forall>j<vl st. elem s2 c (i * P + j) =
          fma (elem st a (i * N + (N + 1))) (elem st b (N * P + j))
            (naive_fma fma (\<lambda>k. elem st a (i * N + k)) (\<lambda>k. elem st b (k * P + j))
               (elem st c (i * P + j)) (N + 1))"
    using s2(4) s1(3) by (simp add: heap_eq_elem [OF s1(1)] s1(2))
  show ?thesis
    using e1 e2 s2(1,2,3,5,6) s1(1,2) vals by auto
qed

text \<open>With one row group and one column chunk the driver makes a single kernel call.\<close>

lemma matmul_single_block:
  assumes "grant P = P" "0 < P"
  shows "matmul grant fma c a b 4 N P st =
     Some (case matmul_vec_4x4_slice_init c P (st\<lparr>vl := P\<rparr>) of Inl e \<Rightarrow> Inl e
           | Inr st1 \<Rightarrow> matmul_vec_4x4 fma c a b N P st1)"
proof -
  have 1: "\<And>s. row_loop fma c a b 4 N P 4 s = Inr s"
    by (subst row_loop.simps) simp
  have 2: "\<And>s. col_loop grant fma c a b 4 N P P P s = Some (Inr s)"
    by (subst col_loop.simps) simp
  have 3: "\<And>s. row_loop fma c a b 4 N P 0 s =
      (case matmul_vec_4x4_slice_init c P s of Inl e \<Rightarrow> Inl e
       | Inr st1 \<Rightarrow> matmul_vec_4x4 fma c a b N P st1)"
    by (subst row_loop.simps) (simp add: 1 split: sum.splits)
  have 4: "\<And>s. col_loop grant fma c a b 4 N P P 0 s = Some (row_loop fma c a b 4 N P 0 (s\<lparr>vl := P\<rparr>))"
    by (subst col_loop.simps) (simp add: assms vsetvli_def 2 split: sum.splits)
  show ?thesis
    by (simp add: matmul_def vsetvli_def assms 3 4)
qed

text \<open>One pass of the column loop over a matrix of one row group.\<close>

lemma col_loop_step:
  assumes "p < P" "grant (min (P - p) bsp) = v" "v = min (P - p) bsp" "p' = p + bsp"
  shows "col_loop grant fma c a b 4 N P bsp p s =
     (case (case matmul_vec_4x4_slice_init (padd c p) P (s\<lparr>vl := v\<rparr>) of
              Inl e \<Rightarrow> Inl e
            | Inr s1 \<Rightarrow> matmul_vec_4x4 fma (padd c p) a (padd b p) N P s1) of
        Inl e \<Rightarrow> Some (Inl e)
      | Inr s2 \<Rightarrow> col_loop grant fma c a b 4 N P bsp p' s2)"
proof -
  have 1: "\<And>c' b' s. row_loop fma c' a b' 4 N P 4 s = Inr s"
    by (subst row_loop.simps) simp
  have 3: "\<And>c' b' s. row_loop fma c' a b' 4 N P 0 s =
      (case matmul_vec_4x4_slice_init c' P s of Inl e \<Rightarrow> Inl e
       | Inr st1 \<Rightarrow> matmul_vec_4x4 fma c' a b' N P st1)"
    by (subst row_loop.simps) (simp add: 1 split: sum.splits)
  show ?thesis
    unfolding assms(4)
    by (subst col_loop.simps) (simp add: assms(1-3) vsetvli_def 3 Let_def)
qed

lemma col_loop_done: "\<not> p < P \<Longrightarrow> col_loop grant fma c a b M N P bsp p s = Some (Inr s)"
  by (subst col_loop.simps) simp

section \<open>What a run leaves alone, for every \<open>N\<close>\<close>

lemma frame_ok_refl: "frame_ok cb st st"
  by (simp add: frame_ok_def)

lemma frame_ok_trans: "frame_ok cb s1 s2 \<Longrightarrow> frame_ok cb s2 s3 \<Longrightarrow> frame_ok cb s1 s3"
  by (simp add: frame_ok_def)

lemma frame_ok_heap_eq: "heap s2 = heap s1 \<Longrightarrow> frame_ok cb s1 s2"
  by (simp add: frame_ok_def)

lemma vle64_heap: "vle64 vd p st = Inr st' \<Longrightarrow> heap st' = heap st"
  by (auto simp: vle64_def split: if_splits)

lemma fld_heap: "fld p st = Inr (t, st') \<Longrightarrow> heap st' = heap st"
  by (auto simp: fld_def split: if_splits)

lemma vse64_frame: "vse64 vs p st = Inr st' \<Longrightarrow> frame_ok (fst p) st st'"
  by (auto simp: vse64_def frame_ok_def in_bounds_def split: if_splits)

lemma slice_init_heap: "matmul_vec_4x4_slice_init c P st = Inr st' \<Longrightarrow> heap st' = heap st"
  by (auto simp: matmul_vec_4x4_slice_init_def Let_def split: sum.splits dest!: vle64_heap)

lemma fld4_heap: "fld4 a lda st = Inr (t, st') \<Longrightarrow> heap st' = heap st"
  by (auto simp: fld4_def Let_def split: sum.splits prod.splits dest!: fld_heap)

lemma fmacc_fld4_heap: "fmacc_fld4 fma vs a lda t st = Inr (t', st') \<Longrightarrow> heap st' = heap st"
  by (auto simp: fmacc_fld4_def Let_def split: sum.splits prod.splits dest!: fld_heap)

lemma matmul_loop_heap: "matmul_loop fma a' N P n b t st = Inr (t', st') \<Longrightarrow> heap st' = heap st"
proof (induction fma a' N P n b t st rule: matmul_loop.induct)
  case (1 fma a' N P n b t st)
  show ?case
  proof (cases "n < N")
    case False
    with "1.prems" show ?thesis by (subst (asm) matmul_loop.simps) simp
  next
    case True
    from "1.prems" True obtain st1 t1 st2 where
      e1: "vle64 V20 b st = Inr st1" and
      e2: "fmacc_fld4 fma V16 (padd a' (n + 1)) N t st1 = Inr (t1, st2)"
      by (subst (asm) matmul_loop.simps) (auto split: sum.splits)
    have h2: "heap st2 = heap st"
      using vle64_heap [OF e1] fmacc_fld4_heap [OF e2] by simp
    show ?thesis
    proof (cases "n + 1 = N - 1")
      case True
      with "1.prems" \<open>n < N\<close> e1 e2 have "st' = st2"
        by (subst (asm) matmul_loop.simps) simp
      with h2 show ?thesis by simp
    next
      case False
      with "1.prems" \<open>n < N\<close> e1 e2 obtain st3 t2 st4 where
        e3: "vle64 V16 (padd b P) st2 = Inr st3" and
        e4: "fmacc_fld4 fma V20 (padd a' (n + 2)) N t1 st3 = Inr (t2, st4)" and
        e5: "matmul_loop fma a' N P (n + 2) (padd (padd b P) P) t2 st4 = Inr (t', st')"
        by (subst (asm) matmul_loop.simps) (auto split: sum.splits)
      have "heap st' = heap st4"
        using "1.IH" [OF True e1 e2 refl False e3 e4 refl e5] by simp
      then show ?thesis
        using h2 vle64_heap [OF e3] fmacc_fld4_heap [OF e4] by simp
    qed
  qed
qed


lemma fmacc_vse4_frame: "fmacc_vse4 fma c ldc t st = Inr st' \<Longrightarrow> frame_ok (fst c) st st'"
proof (cases t)
  case (fields t0 t1 t2 t3)
  assume r: "fmacc_vse4 fma c ldc t st = Inr st'"
  have v: "\<And>vd p s s' x vs. vse64 vd p (vfmacc_vf fma vd x vs s) = Inr s' \<Longrightarrow> fst p = fst c \<Longrightarrow> frame_ok (fst c) s s'"
    using vse64_frame by (fastforce simp: frame_ok_def)
  from r obtain s1 s2 s3 where
    "vse64 V0 c (vfmacc_vf fma V0 t0 V20 st) = Inr s1"
    "vse64 V4 (padd c ldc) (vfmacc_vf fma V4 t1 V20 s1) = Inr s2"
    "vse64 V8 (padd (padd c ldc) ldc) (vfmacc_vf fma V8 t2 V20 s2) = Inr s3"
    "vse64 V12 (padd (padd (padd c ldc) ldc) ldc) (vfmacc_vf fma V12 t3 V20 s3) = Inr st'"
    unfolding fields fmacc_vse4_def Let_def
    by (auto split: sum.splits simp del: padd_simps(3))
  then have "frame_ok (fst c) st s1" "frame_ok (fst c) s1 s2" "frame_ok (fst c) s2 s3"
    "frame_ok (fst c) s3 st'"
    by (auto intro!: v)
  then show ?thesis by (blast intro: frame_ok_trans)
qed

lemma matmul_vec_4x4_frame:
  assumes "matmul_vec_4x4 fma c a b N P st = Inr st'"
  shows "frame_ok (fst c) st st'"
proof -
  from assms obtain s0 t s1 t' s2 where
    e: "vle64 V16 b st = Inr s0" "fld4 a N s0 = Inr (t, s1)"
      "matmul_loop fma a N P 0 (padd b P) t s1 = Inr (t', s2)" "fmacc_vse4 fma c P t' s2 = Inr st'"
    unfolding matmul_vec_4x4_def Let_def by (auto split: sum.splits)
  have "heap s2 = heap st"
    using vle64_heap [OF e(1)] fld4_heap [OF e(2)] matmul_loop_heap [OF e(3)] by simp
  then have "frame_ok (fst c) st s2" by (rule frame_ok_heap_eq)
  then show ?thesis using fmacc_vse4_frame [OF e(4)] by (rule frame_ok_trans)
qed

lemma row_loop_frame:
  "row_loop fma c' a b' M N P m st = Inr st' \<Longrightarrow> frame_ok (fst c') st st'"
proof (induction fma c' a b' M N P m st rule: row_loop.induct)
  case (1 fma c' a b' M N P m st)
  show ?case
  proof (cases "m < M")
    case False
    with "1.prems" have "st' = st" by (subst (asm) row_loop.simps) simp
    then show ?thesis by (simp add: frame_ok_refl)
  next
    case True
    with "1.prems" obtain s1 s2 where
      e: "matmul_vec_4x4_slice_init (padd c' (m * P)) P st = Inr s1"
        "matmul_vec_4x4 fma (padd c' (m * P)) (padd a (m * N)) b' N P s1 = Inr s2"
        "row_loop fma c' a b' M N P (m + 4) s2 = Inr st'"
      by (subst (asm) row_loop.simps) (auto simp: Let_def split: sum.splits)
    have "frame_ok (fst c') st s1"
      using slice_init_heap [OF e(1)] by (rule frame_ok_heap_eq)
    moreover have "frame_ok (fst c') s1 s2"
      using matmul_vec_4x4_frame [OF e(2)] by simp
    moreover have "frame_ok (fst c') s2 st'"
      by (rule "1.IH" [OF True refl refl e(1) e(2) e(3)])
    ultimately show ?thesis by (blast intro: frame_ok_trans)
  qed
qed

lemmas col_loop_induct = col_loop.raw_induct
  [where Pa = "\<lambda>((((((((((g, f), c), a), b), M), N), P), bsp), p), st) r.
     Q g f c a b M N P bsp p st r" for Q, unfolded prod.case]

lemma col_loop_frame:
  assumes "col_loop grant fma c a b M N P bsp p st = Some r"
  shows "\<forall>st'. r = Inr st' \<longrightarrow> frame_ok (fst c) st st'"
proof (rule col_loop_induct
    [where Q = "\<lambda>g f c a b M N P bsp p st r. \<forall>st'. r = Inr st' \<longrightarrow> frame_ok (fst c) st st'",
     OF _ assms], intro allI impI)
  fix loop grant fma c a b M N P bsp p st r st'
  assume IH: "\<And>grant fma c a b M N P bsp p st r.
        loop grant fma c a b M N P bsp p st = Some r \<Longrightarrow>
        \<forall>st'. r = Inr st' \<longrightarrow> frame_ok (fst c) st st'"
    and body: "(if p < P
         then let p' = min (P - p) bsp; st1 = snd (vsetvli grant p' st);
                  b' = padd b p; c' = padd c p
              in case row_loop fma c' a b' M N P 0 st1 of Inl e \<Rightarrow> Some (Inl e)
                 | Inr st2 \<Rightarrow> loop grant fma c a b M N P bsp (p + bsp) st2
         else Some (Inr st)) = Some r"
    and r: "r = Inr st'"
  show "frame_ok (fst c) st st'"
  proof (cases "p < P")
    case False
    with body r show ?thesis by (auto simp: frame_ok_refl)
  next
    case True
    let ?s1 = "snd (vsetvli grant (min (P - p) bsp) st)"
    have h1: "frame_ok (fst c) st ?s1" by (simp add: frame_ok_def vsetvli_def)
    from body True r obtain s2 where
      e: "row_loop fma (padd c p) a (padd b p) M N P 0 ?s1 = Inr s2"
        "loop grant fma c a b M N P bsp (p + bsp) s2 = Some (Inr st')"
      by (auto simp: Let_def split: sum.splits)
    have h2: "frame_ok (fst c) ?s1 s2" using row_loop_frame [OF e(1)] by simp
    have "frame_ok (fst c) s2 st'" using IH [OF e(2)] by simp
    with h1 h2 show ?thesis by (blast intro: frame_ok_trans)
  qed
qed

section \<open>The vector accesses of a run, for every \<open>N\<close>\<close>

text \<open>
  Whatever \<open>N\<close> and \<open>M\<close> are, a part of the program that returns has kept the vector length
  and has only logged vector accesses of that length at whole rows after its \<open>b\<close> and \<open>c\<close>.
\<close>

lemma row_vecs_Fld [simp]: "row_vecs b c P v (Fld p)"
  by (simp add: row_vecs_def)

lemma row_vecs_b: "row_vecs b c P v (Vle (padd b (r * P)) v)"
  unfolding row_vecs_def by blast

lemma row_vecs_c:
  "row_vecs b c P v (Vle (padd c (r * P)) v)" "row_vecs b c P v (Vse (padd c (r * P)) v)"
  unfolding row_vecs_def by blast+

lemma vle64_log:
  "vle64 vd p st = Inr st' \<Longrightarrow> Q (Vle p (vl st)) \<Longrightarrow> vl st' = vl st \<and> traced Q st st'"
  by (auto simp: vle64_def traced_def split: if_splits)

lemma vse64_log:
  "vse64 vs p st = Inr st' \<Longrightarrow> Q (Vse p (vl st)) \<Longrightarrow> vl st' = vl st \<and> traced Q st st'"
  by (auto simp: vse64_def traced_def split: if_splits)

lemma fld_log:
  "fld p st = Inr (t, st') \<Longrightarrow> Q (Fld p) \<Longrightarrow> vl st' = vl st \<and> traced Q st st'"
  by (auto simp: fld_def traced_def split: if_splits)

lemma traced_vfmacc [simp]:
  "traced Q (vfmacc_vf fma vd t vs st) st' = traced Q st st'"
  "traced Q st (vfmacc_vf fma vd t vs st') = traced Q st st'"
  by (simp_all add: traced_def vfmacc_vf_def)

lemma fld4_log:
  assumes "fld4 a lda st = Inr (t, st')" and Q: "\<And>p. Q (Fld p)"
  shows "vl st' = vl st \<and> traced Q st st'"
proof -
  from assms(1) obtain x0 s0 x1 s1 x2 s2 x3 where
    e: "fld a st = Inr (x0, s0)" "fld (padd a lda) s0 = Inr (x1, s1)"
      "fld (padd (padd a lda) lda) s1 = Inr (x2, s2)"
      "fld (padd (padd (padd a lda) lda) lda) s2 = Inr (x3, st')"
    unfolding fld4_def Let_def
    by (auto split: sum.splits prod.splits simp del: padd_simps(3))
  show ?thesis
    using fld_log [OF e(1), of Q] fld_log [OF e(2), of Q] fld_log [OF e(3), of Q]
      fld_log [OF e(4), of Q] Q
    by (auto intro: traced_trans)
qed

lemma fmacc_fld4_log:
  assumes "fmacc_fld4 fma vs a lda t st = Inr (t', st')" and Q: "\<And>p. Q (Fld p)"
  shows "vl st' = vl st \<and> traced Q st st'"
proof (cases t)
  case (fields t0 t1 t2 t3)
  from assms(1) obtain x0 s0 x1 s1 x2 s2 x3 where
    e: "fld a (vfmacc_vf fma V0 t0 vs st) = Inr (x0, s0)"
      "fld (padd a lda) (vfmacc_vf fma V4 t1 vs s0) = Inr (x1, s1)"
      "fld (padd (padd a lda) lda) (vfmacc_vf fma V8 t2 vs s1) = Inr (x2, s2)"
      "fld (padd (padd (padd a lda) lda) lda) (vfmacc_vf fma V12 t3 vs s2) = Inr (x3, st')"
    unfolding fields fmacc_fld4_def Let_def
    by (auto split: sum.splits prod.splits simp del: padd_simps(3))
  show ?thesis
    using fld_log [OF e(1), of Q] fld_log [OF e(2), of Q] fld_log [OF e(3), of Q]
      fld_log [OF e(4), of Q] Q
    by (auto intro: traced_trans)
qed


lemma matmul_loop_log:
  "matmul_loop fma a' N P n b t st = Inr (t', st') \<Longrightarrow> \<exists>r. b = padd b0 (r * P) \<Longrightarrow>
   vl st' = vl st \<and> traced (row_vecs b0 c P (vl st)) st st'"
proof (induction fma a' N P n b t st rule: matmul_loop.induct)
  case (1 fma a' N P n b t st)
  let ?Q = "row_vecs b0 c P (vl st)"
  from "1.prems"(2) obtain r where b: "b = padd b0 (r * P)" by blast
  show ?case
  proof (cases "n < N")
    case False
    with "1.prems"(1) have "st' = st" by (subst (asm) matmul_loop.simps) simp
    then show ?thesis by (simp add: traced_refl)
  next
    case True
    from "1.prems"(1) True obtain st1 t1 st2 where
      e1: "vle64 V20 b st = Inr st1" and
      e2: "fmacc_fld4 fma V16 (padd a' (n + 1)) N t st1 = Inr (t1, st2)"
      by (subst (asm) matmul_loop.simps) (auto split: sum.splits)
    have l1: "vl st1 = vl st \<and> traced ?Q st st1"
      by (rule vle64_log [OF e1]) (simp add: b row_vecs_b)
    have l2: "vl st2 = vl st1 \<and> traced ?Q st1 st2"
      by (rule fmacc_fld4_log [OF e2]) simp
    show ?thesis
    proof (cases "n + 1 = N - 1")
      case True
      with "1.prems"(1) \<open>n < N\<close> e1 e2 have "st' = st2"
        by (subst (asm) matmul_loop.simps) simp
      with l1 l2 show ?thesis by (auto intro: traced_trans)
    next
      case False
      with "1.prems"(1) \<open>n < N\<close> e1 e2 obtain st3 t2 st4 where
        e3: "vle64 V16 (padd b P) st2 = Inr st3" and
        e4: "fmacc_fld4 fma V20 (padd a' (n + 2)) N t1 st3 = Inr (t2, st4)" and
        e5: "matmul_loop fma a' N P (n + 2) (padd (padd b P) P) t2 st4 = Inr (t', st')"
        by (subst (asm) matmul_loop.simps) (auto split: sum.splits)
      have v2: "vl st2 = vl st" using l1 l2 by simp
      have "padd b P = padd b0 ((r + 1) * P)" by (simp add: b padd_def)
      then have "?Q (Vle (padd b P) (vl st2))" by (simp only: v2 row_vecs_b)
      from vle64_log [OF e3, of ?Q, OF this]
      have l3: "vl st3 = vl st2 \<and> traced ?Q st2 st3" .
      have l4: "vl st4 = vl st3 \<and> traced ?Q st3 st4"
        by (rule fmacc_fld4_log [OF e4]) simp
      have "padd (padd b P) P = padd b0 ((r + 2) * P)" by (simp add: b padd_def)
      then have "\<exists>r. padd (padd b P) P = padd b0 (r * P)" ..
      from "1.IH" [OF True e1 e2 refl False e3 e4 refl e5 this]
      have l5: "vl st' = vl st4 \<and> traced (row_vecs b0 c P (vl st4)) st4 st'" .
      have v4: "vl st4 = vl st" using v2 l3 l4 by simp
      have "traced ?Q st st2" using l1 l2 by (auto intro: traced_trans)
      moreover have "traced ?Q st2 st4" using l1 l2 l3 l4 by (auto intro: traced_trans)
      moreover have "traced ?Q st4 st'" using l5 v4 by simp
      ultimately have "traced ?Q st st'" by (blast intro: traced_trans)
      with l5 v4 show ?thesis by simp
    qed
  qed
qed

lemma fmacc_vse4_log:
  assumes "fmacc_vse4 fma c ldc t st = Inr st'"
    and Q: "Q (Vse c (vl st))" "Q (Vse (padd c ldc) (vl st))"
      "Q (Vse (padd (padd c ldc) ldc) (vl st))"
      "Q (Vse (padd (padd (padd c ldc) ldc) ldc) (vl st))"
  shows "vl st' = vl st \<and> traced Q st st'"
proof (cases t)
  case (fields t0 t1 t2 t3)
  from assms(1) obtain s1 s2 s3 where
    e: "vse64 V0 c (vfmacc_vf fma V0 t0 V20 st) = Inr s1"
      "vse64 V4 (padd c ldc) (vfmacc_vf fma V4 t1 V20 s1) = Inr s2"
      "vse64 V8 (padd (padd c ldc) ldc) (vfmacc_vf fma V8 t2 V20 s2) = Inr s3"
      "vse64 V12 (padd (padd (padd c ldc) ldc) ldc) (vfmacc_vf fma V12 t3 V20 s3) = Inr st'"
    unfolding fields fmacc_vse4_def Let_def
    by (auto split: sum.splits simp del: padd_simps(3))
  have l1: "vl s1 = vl st \<and> traced Q st s1"
    using vse64_log [OF e(1), of Q] Q(1) by simp
  have l2: "vl s2 = vl s1 \<and> traced Q s1 s2"
    using vse64_log [OF e(2), of Q] Q(2) l1 by (simp del: padd_simps(3))
  have l3: "vl s3 = vl s2 \<and> traced Q s2 s3"
    using vse64_log [OF e(3), of Q] Q(3) l1 l2 by (simp del: padd_simps(3))
  have l4: "vl st' = vl s3 \<and> traced Q s3 st'"
    using vse64_log [OF e(4), of Q] Q(4) l1 l2 l3 by (simp del: padd_simps(3))
  from l1 l2 l3 l4 show ?thesis by (auto intro: traced_trans)
qed

lemma slice_init_log:
  assumes "matmul_vec_4x4_slice_init c P st = Inr st'"
    and Q: "Q (Vle c (vl st))" "Q (Vle (padd c P) (vl st))"
      "Q (Vle (padd (padd c P) P) (vl st))"
      "Q (Vle (padd (padd (padd c P) P) P) (vl st))"
  shows "vl st' = vl st \<and> traced Q st st'"
proof -
  from assms(1) obtain s1 s2 s3 where
    e: "vle64 V0 c st = Inr s1" "vle64 V4 (padd c P) s1 = Inr s2"
      "vle64 V8 (padd (padd c P) P) s2 = Inr s3"
      "vle64 V12 (padd (padd (padd c P) P) P) s3 = Inr st'"
    unfolding matmul_vec_4x4_slice_init_def Let_def
    by (auto split: sum.splits simp del: padd_simps(3))
  have l1: "vl s1 = vl st \<and> traced Q st s1"
    using vle64_log [OF e(1), of Q] Q(1) by simp
  have l2: "vl s2 = vl s1 \<and> traced Q s1 s2"
    using vle64_log [OF e(2), of Q] Q(2) l1 by (simp del: padd_simps(3))
  have l3: "vl s3 = vl s2 \<and> traced Q s2 s3"
    using vle64_log [OF e(3), of Q] Q(3) l1 l2 by (simp del: padd_simps(3))
  have l4: "vl st' = vl s3 \<and> traced Q s3 st'"
    using vle64_log [OF e(4), of Q] Q(4) l1 l2 l3 by (simp del: padd_simps(3))
  from l1 l2 l3 l4 show ?thesis by (auto intro: traced_trans)
qed

lemma row_vecs_c4:
  "row_vecs b c P v (Vle (padd c (m * P)) v)"
  "row_vecs b c P v (Vle (padd (padd c (m * P)) P) v)"
  "row_vecs b c P v (Vle (padd (padd (padd c (m * P)) P) P) v)"
  "row_vecs b c P v (Vle (padd (padd (padd (padd c (m * P)) P) P) P) v)"
  "row_vecs b c P v (Vse (padd c (m * P)) v)"
  "row_vecs b c P v (Vse (padd (padd c (m * P)) P) v)"
  "row_vecs b c P v (Vse (padd (padd (padd c (m * P)) P) P) v)"
  "row_vecs b c P v (Vse (padd (padd (padd (padd c (m * P)) P) P) P) v)"
proof -
  have e: "padd (padd c (m * P)) P = padd c ((m + 1) * P)"
    "padd (padd c ((m + 1) * P)) P = padd c ((m + 2) * P)"
    "padd (padd c ((m + 2) * P)) P = padd c ((m + 3) * P)"
    by (simp_all add: padd_def algebra_simps)
  show "row_vecs b c P v (Vle (padd c (m * P)) v)"
    "row_vecs b c P v (Vle (padd (padd c (m * P)) P) v)"
    "row_vecs b c P v (Vle (padd (padd (padd c (m * P)) P) P) v)"
    "row_vecs b c P v (Vle (padd (padd (padd (padd c (m * P)) P) P) P) v)"
    "row_vecs b c P v (Vse (padd c (m * P)) v)"
    "row_vecs b c P v (Vse (padd (padd c (m * P)) P) v)"
    "row_vecs b c P v (Vse (padd (padd (padd c (m * P)) P) P) v)"
    "row_vecs b c P v (Vse (padd (padd (padd (padd c (m * P)) P) P) P) v)"
    unfolding e by (rule row_vecs_c)+
qed

lemma kernel_log:
  assumes "matmul_vec_4x4 fma (padd c (m * P)) a b N P st = Inr st'"
  shows "vl st' = vl st \<and> traced (row_vecs b c P (vl st)) st st'"
proof -
  let ?Q = "row_vecs b c P (vl st)"
  from assms obtain s0 t s1 t' s2 where
    e: "vle64 V16 b st = Inr s0" "fld4 a N s0 = Inr (t, s1)"
      "matmul_loop fma a N P 0 (padd b P) t s1 = Inr (t', s2)"
      "fmacc_vse4 fma (padd c (m * P)) P t' s2 = Inr st'"
    unfolding matmul_vec_4x4_def Let_def by (auto split: sum.splits)
  have "?Q (Vle b (vl st))" using row_vecs_b [of b c P "vl st" 0] by simp
  from vle64_log [OF e(1), of ?Q, OF this]
  have l0: "vl s0 = vl st \<and> traced ?Q st s0" .
  have l1: "vl s1 = vl s0 \<and> traced ?Q s0 s1"
    by (rule fld4_log [OF e(2)]) simp
  have "\<exists>r. padd b P = padd b (r * P)" by (rule exI [of _ 1]) simp
  from matmul_loop_log [OF e(3) this, of c]
  have l2: "vl s2 = vl s1 \<and> traced (row_vecs b c P (vl s1)) s1 s2" .
  have v2: "vl s2 = vl st" using l0 l1 l2 by simp
  have l3: "vl st' = vl s2 \<and> traced ?Q s2 st'"
    by (rule fmacc_vse4_log [OF e(4)]) (simp_all only: v2 row_vecs_c4)
  from l0 l1 l2 l3 show ?thesis by (auto intro: traced_trans)
qed

lemma row_loop_log:
  "row_loop fma c' a b' M N P m st = Inr st' \<Longrightarrow>
   vl st' = vl st \<and> traced (row_vecs b' c' P (vl st)) st st'"
proof (induction fma c' a b' M N P m st rule: row_loop.induct)
  case (1 fma c' a b' M N P m st)
  let ?Q = "row_vecs b' c' P (vl st)"
  show ?case
  proof (cases "m < M")
    case False
    with "1.prems" have "st' = st" by (subst (asm) row_loop.simps) simp
    then show ?thesis by (simp add: traced_refl)
  next
    case True
    with "1.prems" obtain s1 s2 where
      e: "matmul_vec_4x4_slice_init (padd c' (m * P)) P st = Inr s1"
        "matmul_vec_4x4 fma (padd c' (m * P)) (padd a (m * N)) b' N P s1 = Inr s2"
        "row_loop fma c' a b' M N P (m + 4) s2 = Inr st'"
      by (subst (asm) row_loop.simps) (auto simp: Let_def split: sum.splits)
    have l1: "vl s1 = vl st \<and> traced ?Q st s1"
      by (rule slice_init_log [OF e(1)]) (simp_all only: row_vecs_c4)
    have l2: "vl s2 = vl s1 \<and> traced (row_vecs b' c' P (vl s1)) s1 s2"
      by (rule kernel_log [OF e(2)])
    have l3: "vl st' = vl s2 \<and> traced (row_vecs b' c' P (vl s2)) s2 st'"
      by (rule "1.IH" [OF True refl refl e(1) e(2) e(3)])
    from l1 l2 l3 show ?thesis by (auto intro: traced_trans)
  qed
qed


lemma row_vecs_chunk_cols:
  assumes "p < P" "vl0 dvd p" "row_vecs (padd b p) (padd c p) P (min (P - p) vl0) e"
  shows "chunk_cols b c P vl0 e"
  unfolding chunk_cols_def
proof (intro allI impI)
  fix q n assume "e = Vle q n \<or> e = Vse q n"
  with assms(3) obtain r where n: "n = min (P - p) vl0"
    and q: "q = padd (padd b p) (r * P) \<or> q = padd (padd c p) (r * P)"
    unfolding row_vecs_def by blast
  from q have "q = padd b (r * P + p) \<or> q = padd c (r * P + p)"
    by (simp add: add.commute)
  with assms(1,2) n
  show "\<exists>p r. p < P \<and> vl0 dvd p \<and> n = min (P - p) vl0 \<and>
           (q = padd b (r * P + p) \<or> q = padd c (r * P + p))"
    by blast
qed

lemma col_loop_log:
  assumes "col_loop grant fma c a b M N P bsp p st = Some r"
  shows "(\<forall>x\<le>bsp. grant x = x) \<longrightarrow> bsp dvd p \<longrightarrow>
     (\<forall>st'. r = Inr st' \<longrightarrow> traced (chunk_cols b c P bsp) st st' \<and>
        (if p < P then \<exists>p0<P. bsp dvd p0 \<and> P \<le> p0 + bsp \<and> vl st' = min (P - p0) bsp
         else vl st' = vl st))"
proof (rule col_loop_induct
    [where Q = "\<lambda>g f c a b M N P bsp p st r. (\<forall>x\<le>bsp. g x = x) \<longrightarrow> bsp dvd p \<longrightarrow>
     (\<forall>st'. r = Inr st' \<longrightarrow> traced (chunk_cols b c P bsp) st st' \<and>
        (if p < P then \<exists>p0<P. bsp dvd p0 \<and> P \<le> p0 + bsp \<and> vl st' = min (P - p0) bsp
         else vl st' = vl st))",
     OF _ assms], intro allI impI)
  fix loop grant fma c a b M N P bsp p st r st'
  assume IH: "\<And>grant fma c a b M N P bsp p st r.
        loop grant fma c a b M N P bsp p st = Some r \<Longrightarrow>
        (\<forall>x\<le>bsp. grant x = x) \<longrightarrow> bsp dvd p \<longrightarrow>
        (\<forall>st'. r = Inr st' \<longrightarrow> traced (chunk_cols b c P bsp) st st' \<and>
           (if p < P then \<exists>p0<P. bsp dvd p0 \<and> P \<le> p0 + bsp \<and> vl st' = min (P - p0) bsp
            else vl st' = vl st))"
    and body: "(if p < P
         then let p' = min (P - p) bsp; st1 = snd (vsetvli grant p' st);
                  b' = padd b p; c' = padd c p
              in case row_loop fma c' a b' M N P 0 st1 of Inl e \<Rightarrow> Some (Inl e)
                 | Inr st2 \<Rightarrow> loop grant fma c a b M N P bsp (p + bsp) st2
         else Some (Inr st)) = Some r"
    and g: "\<forall>x\<le>bsp. grant x = x" and d: "bsp dvd p"
    and r: "r = Inr st'"
  show "traced (chunk_cols b c P bsp) st st' \<and>
        (if p < P then \<exists>p0<P. bsp dvd p0 \<and> P \<le> p0 + bsp \<and> vl st' = min (P - p0) bsp
         else vl st' = vl st)"
  proof (cases "p < P")
    case False
    with body r show ?thesis by (auto simp: traced_refl)
  next
    case True
    let ?v = "min (P - p) bsp"
    let ?s1 = "snd (vsetvli grant ?v st)"
    have gv: "grant ?v = ?v" using g by simp
    have v1: "vl ?s1 = ?v" by (simp add: vsetvli_def gv)
    from body True r obtain s2 where
      e: "row_loop fma (padd c p) a (padd b p) M N P 0 ?s1 = Inr s2"
        "loop grant fma c a b M N P bsp (p + bsp) s2 = Some (Inr st')"
      by (auto simp: Let_def split: sum.splits)
    from row_loop_log [OF e(1)]
    have l1: "vl s2 = ?v" "traced (row_vecs (padd b p) (padd c p) P ?v) ?s1 s2"
      by (simp_all only: v1)
    have "traced (row_vecs (padd b p) (padd c p) P ?v) st s2"
      using l1(2) by (simp add: vsetvli_def)
    then have t1: "traced (chunk_cols b c P bsp) st s2"
      by (rule traced_mono) (rule row_vecs_chunk_cols [OF True d])
    have d2: "bsp dvd p + bsp" using d by simp
    from IH [OF e(2), THEN mp, OF g, THEN mp, OF d2, THEN spec, THEN mp, OF refl]
    have t2: "traced (chunk_cols b c P bsp) s2 st'" and
      l2: "if p + bsp < P then \<exists>p0<P. bsp dvd p0 \<and> P \<le> p0 + bsp \<and> vl st' = min (P - p0) bsp
           else vl st' = vl s2"
      by simp_all
    have "\<exists>p0<P. bsp dvd p0 \<and> P \<le> p0 + bsp \<and> vl st' = min (P - p0) bsp"
    proof (cases "p + bsp < P")
      case True
      with l2 show ?thesis by simp
    next
      case False
      with l2 l1(1) have "vl st' = ?v" by simp
      with True d False show ?thesis by (intro exI [of _ p]) simp
    qed
    with t1 t2 True show ?thesis by (auto intro: traced_trans)
  qed
qed

lemma matmul_log:
  assumes hw: "rvv_grant vlmax grant" and P: "0 < P"
    and r: "matmul grant fma c a b M N P st = Some (Inr st')"
  shows "traced (chunk_cols b c P (grant P)) st st' \<and>
       (\<exists>p<P. grant P dvd p \<and> P \<le> p + grant P \<and> vl st' = min (P - p) (grant P))"
proof -
  have g: "\<forall>x\<le>grant P. grant x = x" using rvv_grant_fits [OF hw] by blast
  from r have "col_loop grant fma c a b M N P (grant P) 0 (st\<lparr>vl := grant P\<rparr>) = Some (Inr st')"
    by (simp add: matmul_def vsetvli_def)
  from col_loop_log [OF this, THEN mp, OF g, THEN mp, OF dvd_0_right, THEN spec, THEN mp, OF refl] P
  show ?thesis by simp
qed

section \<open>Termination of the column loop\<close>

lemma col_loop_terminates:
  assumes "0 < bsp"
  shows "\<exists>r. col_loop grant fma c a b M N P bsp p st = Some r"
proof (induction "P - p" arbitrary: p st rule: less_induct)
  case less
  show ?case
  proof (cases "p < P")
    case False
    then show ?thesis by (subst col_loop.simps) simp
  next
    case True
    let ?s1 = "snd (vsetvli grant (min (P - p) bsp) st)"
    show ?thesis
    proof (cases "row_loop fma (padd c p) a (padd b p) M N P 0 ?s1")
      case (Inl e)
      with True show ?thesis by (subst col_loop.simps) (simp add: Let_def)
    next
      case (Inr s2)
      have "P - (p + bsp) < P - p" using True assms by simp
      from less [OF this] obtain r where
        "col_loop grant fma c a b M N P bsp (p + bsp) s2 = Some r" by blast
      with True Inr show ?thesis by (subst col_loop.simps) (simp add: Let_def)
    qed
  qed
qed

section \<open>Where the accesses of a run lie\<close>

lemma mm_access_in_matrices:
  assumes "mm_access a b c M N P vl0 e"
  shows "in_matrices a b c M N P e"
proof -
  from assms obtain p where p: "p < P" and
    q: "chunk_access a b c M N P p (min (P - p) vl0) e"
    unfolding mm_access_def by blast
  let ?v = "min (P - p) vl0"
  have pv: "p + ?v \<le> P" using p by simp
  from q consider
    (A) i k where "i < M" "k < N" "e = Fld (padd a (i * N + k))"
  | (B) k where "k < N" "e = Vle (padd b (k * P + p)) ?v"
  | (C) i where "i < M" "e = Vle (padd c (i * P + p)) ?v \<or> e = Vse (padd c (i * P + p)) ?v"
    unfolding chunk_access_def by blast
  then show ?thesis
  proof cases
    case A
    have "k + 1 \<le> N" using A(2) by simp
    from rows_bound [OF A(1) this] show ?thesis
      by (simp add: in_matrices_def within_def A(3))
  next
    case B
    from rows_bound [OF B(1) pv] show ?thesis
      by (simp add: in_matrices_def within_def B(2))
  next
    case C
    from rows_bound [OF C(1) pv] C(2) show ?thesis
      by (auto simp: in_matrices_def within_def)
  qed
qed

lemma mm_access_chunk_cols:
  assumes "mm_access a b c M N P vl0 e"
  shows "chunk_cols b c P vl0 e"
  using assms unfolding mm_access_def chunk_access_def chunk_cols_def
  by (elim exE conjE disjE) (simp, blast+)

section \<open>Evaluating the examples\<close>

lemma all_lt2: "(\<forall>k<2::nat. Q k) \<longleftrightarrow> Q 0 \<and> Q 1"
  by (auto simp: less_2_cases_iff)

lemma all_le2: "(\<forall>k\<le>2::nat. Q k) \<longleftrightarrow> Q 0 \<and> Q 1 \<and> Q 2"
  by (auto simp: le_Suc_eq numeral_2_eq_2)

lemma ex_machine_fields [simp]:
  "heap (ex_machine C A B v) 0 = C" "heap (ex_machine C A B v) (Suc 0) = A"
  "heap (ex_machine C A B v) 2 = B" "vl (ex_machine C A B v) = v"
  "vrf (ex_machine C A B v) r j = 0" "trace (ex_machine C A B v) = []"
  by (simp_all add: ex_machine_def)

lemma naive_fma_numeral [simp]:
  "naive_fma fma x y acc (numeral n) =
     fma (x (pred_numeral n)) (y (pred_numeral n)) (naive_fma fma x y acc (pred_numeral n))"
  by (simp add: numeral_eq_Suc)

lemma rvv_grant_min: "0 < vlmax \<Longrightarrow> rvv_grant vlmax (\<lambda>n. min n vlmax)"
  by (auto simp: rvv_grant_def)

lemma naive_fma_exact:
  fixes c :: "'a::semiring_0"
  shows "naive_fma fma_exact x y c n = c + (\<Sum>k<n. x k * y k)"
  by (induction n) (simp_all add: fma_exact_def ac_simps)

lemma sum_lt2: "(\<Sum>k<2::nat. f k) = f 0 + (f 1 :: 'a::comm_monoid_add)"
  by (simp add: numeral_2_eq_2)

section \<open>Evaluating the multiply-add of the doubles\<close>

declare excess.simps [simp del]

lemma excess_small: "x < 2 ^ 53 \<Longrightarrow> excess x = 0"
  by (subst excess.simps) simp

lemma rne53_small: "\<bar>x\<bar> < 2 ^ 53 \<Longrightarrow> rne53 x = x"
  by (simp add: rne53_def excess_small)

lemma round_dbl_small: "\<bar>x\<bar> < 2 ^ 53 \<Longrightarrow> round_dbl x = Fin x"
proof -
  assume a: "\<bar>x\<bar> < 2 ^ 53"
  have b: "(2::int) ^ 53 < 2 ^ 1024" by (rule power_strict_increasing) simp_all
  from a b have f: "\<not> 2 ^ 1024 \<le> x" "\<not> x \<le> - (2 ^ 1024)" by linarith+
  show ?thesis by (simp only: round_dbl_def Let_def rne53_small [OF a] f if_False)
qed

lemma rne53_tie: "rne53 (2 ^ 53 + 1) = 2 ^ 53"
proof -
  have "excess (2 ^ 53 + 1) = 1"
    by (subst excess.simps, simp, subst excess.simps, simp)
  moreover have "\<bar>2 ^ 53 + 1 :: int\<bar> = 2 ^ 53 + 1" by simp
  ultimately have e: "excess \<bar>2 ^ 53 + 1 :: int\<bar> = 1" by simp
  show ?thesis unfolding rne53_def e Let_def by simp
qed

lemma fma_dbl_tie: "fma_dbl (Fin 1) (Fin 1) (Fin (2 ^ 53)) = Fin (2 ^ 53)"
proof -
  have f: "\<not> 2 ^ 1024 \<le> (2::int) ^ 53" "\<not> (2::int) ^ 53 \<le> - (2 ^ 1024)" by simp_all
  have "fma_dbl (Fin 1) (Fin 1) (Fin (2 ^ 53)) = round_dbl (2 ^ 53 + 1)"
    by (simp add: fma_dbl_def add.commute)
  also have "\<dots> = Fin (2 ^ 53)"
    by (simp only: round_dbl_def Let_def rne53_tie f if_False)
  finally show ?thesis .
qed

lemma fma_dbl_zero:
  "\<bar>c\<bar> < 2 ^ 53 \<Longrightarrow> fma_dbl 0 (Fin x) (Fin c) = Fin c"
  "\<bar>c\<bar> < 2 ^ 53 \<Longrightarrow> fma_dbl (Fin x) 0 (Fin c) = Fin c"
  by (simp_all add: fma_dbl_def zero_dbl_def round_dbl_small)

lemma fma_dbl_NaN: "fma_dbl 0 PInf c = NaN" "fma_dbl a b NaN = NaN"
  by (simp_all add: fma_dbl_def zero_dbl_def, cases "mul_dbl a b", simp_all)

lemma dbl_machine_fields [simp]:
  "heap (dbl_machine C A B v) 0 = C" "heap (dbl_machine C A B v) (Suc 0) = A"
  "heap (dbl_machine C A B v) 2 = B" "vl (dbl_machine C A B v) = v"
  "trace (dbl_machine C A B v) = []"
  by (simp_all add: dbl_machine_def)

section \<open>Folds that add nothing, and folds applied twice\<close>

lemma naive_fma_absorb:
  "(\<And>k. k < n \<Longrightarrow> fma (x k) (y k) c = c) \<Longrightarrow> naive_fma fma x y c n = c"
  by (induction n) simp_all

text \<open>Without rounding, accumulating the same products twice adds their sum twice.\<close>

lemma naive_fma_twice_exact:
  fixes c :: "'a::semiring_1"
  shows "naive_fma fma_exact x y (naive_fma fma_exact x y c n) n = c + 2 * (\<Sum>k<n. x k * y k)"
  by (simp add: naive_fma_exact mult_2 add.assoc)

text \<open>Two calls in succession: the second reads what the first left in C.\<close>

lemma matmul_even_twice:
  assumes "rvv_grant vlmax grant"
    and "even N" and "0 < N" and "4 dvd M" and "0 < P"
    and "fst a \<noteq> fst c" and "fst b \<noteq> fst c"
    and "snd a + M * N \<le> length (heap st (fst a))"
    and "snd b + N * P \<le> length (heap st (fst b))"
    and "snd c + M * P \<le> length (heap st (fst c))"
  shows "\<exists>st' st''. matmul grant fma c a b M N P st = Some (Inr st')
     \<and> matmul grant fma c a b M N P st' = Some (Inr st'')
     \<and> (\<forall>i<M. \<forall>j<P. elem st' c (i * P + j) =
           naive_fma fma (\<lambda>k. elem st a (i * N + k)) (\<lambda>k. elem st b (k * P + j))
             (elem st c (i * P + j)) N)
     \<and> (\<forall>i<M. \<forall>j<P. elem st'' c (i * P + j) =
           naive_fma fma (\<lambda>k. elem st a (i * N + k)) (\<lambda>k. elem st b (k * P + j))
             (elem st' c (i * P + j)) N)"
proof -
  from matmul_even [OF assms, of fma] obtain st' where
    r1: "matmul grant fma c a b M N P st = Some (Inr st')" and
    o1: "\<forall>blk. blk \<noteq> fst c \<longrightarrow> heap st' blk = heap st blk" and
    l1: "length (heap st' (fst c)) = length (heap st (fst c))" and
    v1: "\<forall>i<M. \<forall>j<P. elem st' c (i * P + j) =
          naive_fma fma (\<lambda>k. elem st a (i * N + k)) (\<lambda>k. elem st b (k * P + j))
            (elem st c (i * P + j)) N"
    by blast
  have ha: "heap st' (fst a) = heap st (fst a)" and hb: "heap st' (fst b) = heap st (fst b)"
    using o1 assms(6,7) by simp_all
  have ea: "\<And>k. elem st' a k = elem st a k" and eb: "\<And>k. elem st' b k = elem st b k"
    by (simp_all add: elem_def ha hb)
  have s': "snd a + M * N \<le> length (heap st' (fst a))" "snd b + N * P \<le> length (heap st' (fst b))"
    "snd c + M * P \<le> length (heap st' (fst c))"
    using assms(8-10) ha hb l1 by simp_all
  from matmul_even [OF assms(1-7) s', of fma] obtain st'' where
    r2: "matmul grant fma c a b M N P st' = Some (Inr st'')" and
    v2: "\<forall>i<M. \<forall>j<P. elem st'' c (i * P + j) =
          naive_fma fma (\<lambda>k. elem st' a (i * N + k)) (\<lambda>k. elem st' b (k * P + j))
            (elem st' c (i * P + j)) N"
    by blast
  from v2 have w2: "\<forall>i<M. \<forall>j<P. elem st'' c (i * P + j) =
          naive_fma fma (\<lambda>k. elem st a (i * N + k)) (\<lambda>k. elem st b (k * P + j))
            (elem st' c (i * P + j)) N"
    by (simp only: ea eb)
  show ?thesis by (intro exI [of _ st'] exI [of _ st''] conjI r1 r2 v1 w2)
qed

section \<open>The accumulator initializer\<close>

text \<open>
  Claim C8. When the four rows of the block at \<open>c\<close> lie inside the buffer,
  \<^verbatim>\<open>matmul_vec_4x4_slice_init(c, P)\<close> returns, leaves the memory and the vector length as
  they were, and accumulator slot \<open>i\<close> (for \<open>i = 0..3\<close>: \<open>v0, v4, v8, v12\<close>) holds in its
  lanes \<open>j < vl\<close> the elements \<open>c + i*P + j\<close>, that is row \<open>i\<close> of the block of C.
\<close>

theorem slice_init_rows:
  assumes "\<forall>i<4. in_bounds st (padd c (i * P)) (vl st)"
  shows "\<exists>st'. matmul_vec_4x4_slice_init c P st = Inr st' \<and> heap st' = heap st \<and> vl st' = vl st
           \<and> (\<forall>i<4. \<forall>j<vl st. vrf st' (acc_reg i) j = elem st c (i * P + j))"
  using slice_init_ok [OF assms] by blast

theorem slice_init_rows_witness:
  "\<exists>st'. matmul_vec_4x4_slice_init (0, 0) 2 (ex_machine [1, 2, 3, 4, 5, 6, 7, 8] [] [] 2) = Inr st'
         \<and> vrf st' V0 0 = 1 \<and> vrf st' V0 1 = 2 \<and> vrf st' V12 0 = 7 \<and> vrf st' V12 1 = 8"
proof -
  let ?st = "ex_machine [1, 2, 3, 4, 5, 6, 7, 8] [] [] 2"
  have h: "\<forall>i<4. in_bounds ?st (padd (0, 0) (i * 2)) (vl ?st)"
    by (simp add: all_lt4 in_bounds_def ex_machine_def)
  from slice_init_rows [OF h] obtain st' where
    r: "matmul_vec_4x4_slice_init (0, 0) 2 ?st = Inr st'" and
    v: "\<forall>i<4. \<forall>j<vl ?st. vrf st' (acc_reg i) j = elem ?st (0, 0) (i * 2 + j)"
    by blast
  have "vrf st' V0 0 = 1 \<and> vrf st' V0 1 = 2 \<and> vrf st' V12 0 = 7 \<and> vrf st' V12 1 = 8"
    using v [rule_format, of 0 0] v [rule_format, of 0 1] v [rule_format, of 3 0]
      v [rule_format, of 3 1]
    by (simp add: ex_machine_def elem_def)
  with r show ?thesis by blast
qed

section \<open>The product\<close>

text \<open>
  Claim C1, as amended. On hardware that grants vector lengths as the vector extension
  requires, for \<open>M\<close> a multiple of 4, even \<open>N \<ge> 2\<close>, \<open>P \<ge> 1\<close> and buffers A, B, C of
  at least \<open>M*N\<close>, \<open>N*P\<close>, \<open>M*P\<close> elements with C distinct from A and B, \<^verbatim>\<open>matmul\<close>
  returns and every \<open>C[i][j]\<close> with \<open>i < M\<close>, \<open>j < P\<close> holds its prior value with the
  products \<open>A[i][k] * B[k][j]\<close>, \<open>k = 0, ..., N - 1\<close>, accumulated onto it in this order by
  the fused multiply-add.
\<close>

theorem matmul_adds_product:
  assumes "rvv_grant vlmax grant"
    and "even N" and "0 < N" and "4 dvd M" and "0 < P"
    and "fst a \<noteq> fst c" and "fst b \<noteq> fst c"
    and "snd a + M * N \<le> length (heap st (fst a))"
    and "snd b + N * P \<le> length (heap st (fst b))"
    and "snd c + M * P \<le> length (heap st (fst c))"
  shows "\<exists>st'. matmul grant fma c a b M N P st = Some (Inr st')
     \<and> (\<forall>i<M. \<forall>j<P. elem st' c (i * P + j) =
          naive_fma fma (\<lambda>k. elem st a (i * N + k)) (\<lambda>k. elem st b (k * P + j)) (elem st c (i * P + j)) N)"
  using matmul_even [OF assms, of fma] by blast

theorem matmul_adds_product_witness:
  "\<exists>st'. matmul (\<lambda>n. min n 2) fma_exact (0, 0) (1, 0) (2, 0) 4 2 3
       (ex_machine [100, 200, 300, 400, 500, 600, 700, 800, 900, 1000, 1100, 1200]
          [1, 2, 3, 4, 5, 6, 7, 8] [1, 2, 3, 4, 5, 6] 0) = Some (Inr st')
     \<and> elem st' (0, 0) 0 = 109 \<and> elem st' (0, 0) 2 = 315 \<and> elem st' (0, 0) 11 = 1269"
proof -
  let ?st = "ex_machine [100, 200, 300, 400, 500, 600, 700, 800, 900, 1000, 1100, 1200]
          [1, 2, 3, 4, 5, 6, 7, 8] [1, 2, 3, 4, 5, 6] 0"
  have hw: "rvv_grant 2 (\<lambda>n. min n 2)" by (rule rvv_grant_min) simp
  have h: "even (2::nat)" "0 < (2::nat)" "4 dvd (4::nat)" "0 < (3::nat)"
    "fst (1::nat, 0::nat) \<noteq> fst (0::nat, 0::nat)" "fst (2::nat, 0::nat) \<noteq> fst (0::nat, 0::nat)"
    "snd (1, 0) + 4 * 2 \<le> length (heap ?st (fst (1::nat, 0::nat)))"
    "snd (2, 0) + 2 * 3 \<le> length (heap ?st (fst (2::nat, 0::nat)))"
    "snd (0, 0) + 4 * 3 \<le> length (heap ?st (fst (0::nat, 0::nat)))"
    by simp_all
  from matmul_adds_product [OF hw h, of fma_exact] obtain st' where
    r: "matmul (\<lambda>n. min n 2) fma_exact (0, 0) (1, 0) (2, 0) 4 2 3 ?st = Some (Inr st')" and
    v: "\<forall>i<4. \<forall>j<3. elem st' (0, 0) (i * 3 + j) =
          naive_fma fma_exact (\<lambda>k. elem ?st (1, 0) (i * 2 + k)) (\<lambda>k. elem ?st (2, 0) (k * 3 + j))
            (elem ?st (0, 0) (i * 3 + j)) 2"
    by blast
  have "elem st' (0, 0) 0 = 109" "elem st' (0, 0) 2 = 315" "elem st' (0, 0) 11 = 1269"
    using v [rule_format, of 0 0] v [rule_format, of 0 2] v [rule_format, of 3 2]
    by (simp_all add: elem_def fma_exact_def)
  with r show ?thesis by blast
qed

text \<open>
  The claim as stated, which includes odd \<open>N\<close> and \<open>N = 1\<close>, fails at \<open>M = 4\<close>,
  \<open>N = P = 1\<close>: on buffers of exactly the sizes of the matrices the kernel's load of row 1
  of B leaves the buffer, and with room behind the matrices \<open>C[0][0]\<close> becomes
  \<open>100 + 1*10 + 2*20 + 3*20 = 210\<close> instead of \<open>100 + 1*10 = 110\<close>.
\<close>

theorem matmul_odd_wrong_sum:
  "matmul (\<lambda>n. min n 2) fma_exact (0, 0) (1, 0) (2, 0) 4 1 1
       (ex_machine [100, 200, 300, 400] [1, 2, 3, 4] [10] 0) = Some (Inl (Fault (Vle (2, 1) 1)))
   \<and> (\<exists>st'. matmul (\<lambda>n. min n 2) fma_exact (0, 0) (1, 0) (2, 0) 4 1 1
       (ex_machine [100, 200, 300, 400] [1, 2, 3, 4, 5, 6] [10, 20, 30] 0) = Some (Inr st')
     \<and> elem st' (0, 0) 0 = 210 \<and> 100 + (\<Sum>k<1. [1, 2, 3, 4] ! k * [10] ! k) = (110::int))"
proof
  show "matmul (\<lambda>n. min n 2) fma_exact (0, 0) (1, 0) (2, 0) 4 1 1
       (ex_machine [100, 200, 300, 400] [1, 2, 3, 4] [10] 0) = Some (Inl (Fault (Vle (2, 1) 1)))"
    by (simp add: matmul_single_block matmul_vec_4x4_slice_init_def matmul_vec_4x4_def
        matmul_loop.simps fld4_def vle64_def fld_def in_bounds_def padd_def ex_machine_def Let_def)
next
  let ?st = "ex_machine [100, 200, 300, 400] [1, 2, 3, 4, 5, 6] [10, 20, 30] 0\<lparr>vl := 1\<rparr>"
  have h: "odd (1::nat)" "snd (1, 0) + 4 * 1 + 2 \<le> length (heap ?st (fst (1::nat, 0::nat)))"
    "\<forall>k\<le>1 + 1. in_bounds ?st (padd (2, 0) (k * 1)) (vl ?st)"
    "\<forall>i<4. in_bounds ?st (padd (0, 0) (i * 1)) (vl ?st)" "vl ?st \<le> 1"
    by (simp_all add: all_lt4 in_bounds_def)
  from block_odd [OF h, of fma_exact] obtain st1 st' where
    r: "matmul_vec_4x4_slice_init (0, 0) 1 ?st = Inr st1"
      "matmul_vec_4x4 fma_exact (0, 0) (1, 0) (2, 0) 1 1 st1 = Inr st'" and
    v: "\<forall>i<4. \<forall>j<vl ?st. elem st' (0, 0) (i * 1 + j) =
          fma_exact (elem ?st (1, 0) (i * 1 + (1 + 1))) (elem ?st (2, 0) (1 * 1 + j))
            (naive_fma fma_exact (\<lambda>k. elem ?st (1, 0) (i * 1 + k)) (\<lambda>k. elem ?st (2, 0) (k * 1 + j))
               (elem ?st (0, 0) (i * 1 + j)) (1 + 1))"
    by blast
  have "matmul (\<lambda>n. min n 2) fma_exact (0, 0) (1, 0) (2, 0) 4 1 1
       (ex_machine [100, 200, 300, 400] [1, 2, 3, 4, 5, 6] [10, 20, 30] 0) = Some (Inr st')"
    using r by (simp add: matmul_single_block)
  moreover have "elem st' (0, 0) 0 = 210"
    using v [rule_format, of 0 0] by (simp add: elem_def fma_exact_def)
  ultimately show "\<exists>st'. matmul (\<lambda>n. min n 2) fma_exact (0, 0) (1, 0) (2, 0) 4 1 1
       (ex_machine [100, 200, 300, 400] [1, 2, 3, 4, 5, 6] [10, 20, 30] 0) = Some (Inr st')
     \<and> elem st' (0, 0) 0 = 210 \<and> 100 + (\<Sum>k<1. [1, 2, 3, 4] ! k * [10] ! k) = (110::int)"
    by simp
qed

section \<open>The loads of the kernel\<close>

text \<open>
  Claim C2, as amended. For even \<open>N \<ge> 2\<close>, under the same conditions on the buffers,
  \<^verbatim>\<open>matmul_vec_4x4\<close> returns and its log is a sequence of loads followed by the four
  stores; every load is the scalar \<open>A[i][k]\<close> of one of the four rows or the vector of row
  \<open>k\<close> of B with \<open>k < N\<close>: no element with reduction index \<open>k \<ge> N\<close> is loaded.
\<close>

theorem kernel_loads_in_range:
  assumes "even N" and "0 < N"
    and "snd a + 4 * N \<le> length (heap st (fst a))"
    and "\<forall>k<N. in_bounds st (padd b (k * P)) (vl st)"
    and "\<forall>i<4. in_bounds st (padd c (i * P)) (vl st)"
    and "vl st \<le> P"
  shows "\<exists>st' tr. matmul_vec_4x4 fma c a b N P st = Inr st'
     \<and> trace st' = trace st @ tr @ map (\<lambda>i. Vse (padd c (i * P)) (vl st)) [0, 1, 2, 3]
     \<and> (\<forall>e\<in>set tr. red_load a b N P (vl st) e)"
  using kernel_even [OF assms, of fma] by blast

theorem kernel_loads_in_range_witness:
  "\<exists>st'. matmul_vec_4x4 fma_exact (0, 0) (1, 0) (2, 0) 2 2
       (ex_machine [100, 200, 300, 400, 500, 600, 700, 800] [1, 2, 3, 4, 5, 6, 7, 8] [1, 2, 3, 4] 2) = Inr st'
     \<and> Vle (2, 4) 2 \<notin> set (trace st') \<and> Fld (1, 8) \<notin> set (trace st')"
proof -
  let ?st = "ex_machine [100, 200, 300, 400, 500, 600, 700, 800] [1, 2, 3, 4, 5, 6, 7, 8] [1, 2, 3, 4] 2"
  have h: "even (2::nat)" "0 < (2::nat)" "snd (1, 0) + 4 * 2 \<le> length (heap ?st (fst (1::nat, 0::nat)))"
    "\<forall>k<2. in_bounds ?st (padd (2, 0) (k * 2)) (vl ?st)"
    "\<forall>i<4. in_bounds ?st (padd (0, 0) (i * 2)) (vl ?st)" "vl ?st \<le> 2"
    by (simp_all add: all_lt2 all_lt4 in_bounds_def)
  from kernel_loads_in_range [OF h, of fma_exact] obtain st' tr where
    r: "matmul_vec_4x4 fma_exact (0, 0) (1, 0) (2, 0) 2 2 ?st = Inr st'" and
    t: "trace st' = trace ?st @ tr @ map (\<lambda>i. Vse (padd (0, 0) (i * 2)) (vl ?st)) [0, 1, 2, 3]" and
    q: "\<forall>e\<in>set tr. red_load (1, 0) (2, 0) 2 2 (vl ?st) e"
    by blast
  have "\<not> red_load (1, 0) (2, 0) 2 2 2 (Vle (2, 4) 2)"
    by (auto simp: red_load_def padd_def less_2_cases_iff)
  moreover have "\<not> red_load (1, 0) (2, 0) 2 2 2 (Fld (1, 8))"
    by (auto simp: red_load_def padd_def lt4 less_2_cases_iff)
  ultimately have "Vle (2, 4) 2 \<notin> set tr" "Fld (1, 8) \<notin> set tr"
    using q by auto
  then have "Vle (2, 4) 2 \<notin> set (trace st') \<and> Fld (1, 8) \<notin> set (trace st')"
    unfolding t by simp
  with r show ?thesis by blast
qed

text \<open>
  The claim as stated, for every \<open>N\<close>, fails at \<open>N = 1\<close>: the test \<open>n = N - 1\<close> is made with
  \<open>n = 1\<close> only, the loop goes on, and the kernel loads row 1 of B. On a B of exactly one
  row the load leaves the buffer; with room behind B the load is in the log.
\<close>

theorem kernel_odd_overreads:
  "matmul_vec_4x4 fma_exact (0, 0) (1, 0) (2, 0) 1 1
       (ex_machine [100, 200, 300, 400] [1, 2, 3, 4] [10] 1) = Inl (Fault (Vle (2, 1) 1))
   \<and> (\<exists>st'. matmul_vec_4x4 fma_exact (0, 0) (1, 0) (2, 0) 1 1
       (ex_machine [100, 200, 300, 400] [1, 2, 3, 4, 5, 6] [10, 20, 30] 1) = Inr st'
     \<and> Vle (2, 1) 1 \<in> set (trace st'))"
proof
  show "matmul_vec_4x4 fma_exact (0, 0) (1, 0) (2, 0) 1 1
       (ex_machine [100, 200, 300, 400] [1, 2, 3, 4] [10] 1) = Inl (Fault (Vle (2, 1) 1))"
    by (simp add: matmul_vec_4x4_def matmul_loop.simps fld4_def vle64_def fld_def in_bounds_def
        padd_def ex_machine_def Let_def)
next
  let ?st = "ex_machine [100, 200, 300, 400] [1, 2, 3, 4, 5, 6] [10, 20, 30] 1"
  have h: "odd (1::nat)" "snd (1, 0) + 4 * 1 + 2 \<le> length (heap ?st (fst (1::nat, 0::nat)))"
    "\<forall>k\<le>1 + 1. in_bounds ?st (padd (2, 0) (k * 1)) (vl ?st)"
    "\<forall>i<4. in_bounds ?st (padd (0, 0) (i * 1)) (vl ?st)" "vl ?st \<le> 1"
    by (simp_all add: all_lt4 in_bounds_def)
  from kernel_odd [OF h, of fma_exact] obtain st' where
    "matmul_vec_4x4 fma_exact (0, 0) (1, 0) (2, 0) 1 1 ?st = Inr st'"
    "Vle (padd (2, 0) (1 * 1)) (vl ?st) \<in> set (trace st')"
    by blast
  then show "\<exists>st'. matmul_vec_4x4 fma_exact (0, 0) (1, 0) (2, 0) 1 1 ?st = Inr st'
     \<and> Vle (2, 1) 1 \<in> set (trace st')"
    by (auto simp: padd_def)
qed

section \<open>The kernel against the naive reduction\<close>

text \<open>
  Claim C3, as amended. For even \<open>N \<ge> 2\<close>, when the 4-row block of A, the \<open>N\<close> rows of the
  column chunk of B and the four rows of the chunk of C lie inside their buffers and the
  chunk is at most one row wide, \<^verbatim>\<open>matmul_vec_4x4\<close> returns, and the value it stores for
  row \<open>i\<close> and column \<open>j\<close> of the chunk is exactly the left-to-right reduction
  \<open>acc := fma (A[i][k]) (B[k][j]) acc\<close> for \<open>k = 0, ..., N - 1\<close>, started from the value that
  accumulator \<open>i\<close> held in lane \<open>j\<close>, for every \<open>fma\<close>.
\<close>

theorem kernel_refines_naive:
  assumes "even N" and "0 < N"
    and "snd a + 4 * N \<le> length (heap st (fst a))"
    and "\<forall>k<N. in_bounds st (padd b (k * P)) (vl st)"
    and "\<forall>i<4. in_bounds st (padd c (i * P)) (vl st)"
    and "vl st \<le> P"
  shows "\<exists>st'. matmul_vec_4x4 fma c a b N P st = Inr st' \<and>
     (\<forall>i<4. \<forall>j<vl st. elem st' c (i * P + j) =
        naive_fma fma (\<lambda>k. elem st a (i * N + k)) (\<lambda>k. elem st b (k * P + j)) (vrf st (acc_reg i) j) N)"
  using kernel_even [OF assms, of fma] by blast

theorem kernel_refines_naive_witness:
  "\<exists>st'. matmul_vec_4x4 fma_exact (0, 0) (1, 0) (2, 0) 2 2
       (ex_machine [100, 200, 300, 400, 500, 600, 700, 800] [1, 2, 3, 4, 5, 6, 7, 8] [1, 2, 3, 4] 2) = Inr st'
     \<and> elem st' (0, 0) 0 = 7 \<and> elem st' (0, 0) 7 = 46"
proof -
  let ?st = "ex_machine [100, 200, 300, 400, 500, 600, 700, 800] [1, 2, 3, 4, 5, 6, 7, 8] [1, 2, 3, 4] 2"
  have h: "even (2::nat)" "0 < (2::nat)" "snd (1, 0) + 4 * 2 \<le> length (heap ?st (fst (1::nat, 0::nat)))"
    "\<forall>k<2. in_bounds ?st (padd (2, 0) (k * 2)) (vl ?st)"
    "\<forall>i<4. in_bounds ?st (padd (0, 0) (i * 2)) (vl ?st)" "vl ?st \<le> 2"
    by (simp_all add: all_lt2 all_lt4 in_bounds_def)
  from kernel_refines_naive [OF h, of fma_exact] obtain st' where
    r: "matmul_vec_4x4 fma_exact (0, 0) (1, 0) (2, 0) 2 2 ?st = Inr st'" and
    v: "\<forall>i<4. \<forall>j<vl ?st. elem st' (0, 0) (i * 2 + j) =
        naive_fma fma_exact (\<lambda>k. elem ?st (1, 0) (i * 2 + k)) (\<lambda>k. elem ?st (2, 0) (k * 2 + j))
          (vrf ?st (acc_reg i) j) 2"
    by blast
  have "elem st' (0, 0) 0 = 7" "elem st' (0, 0) 7 = 46"
    using v [rule_format, of 0 0] v [rule_format, of 3 1]
    by (simp_all add: elem_def fma_exact_def)
  with r show ?thesis by blast
qed

text \<open>
  The claim as stated, for every \<open>N\<close>, fails at \<open>N = 3\<close>: with room after the matrices
  for the reads beyond them, the kernel stores \<open>150\<close> where the reduction over
  \<open>k = 0, 1, 2\<close> gives \<open>114\<close>: it has added \<open>A[0][3] * B[3][0]\<close> and \<open>A[0][4] * B[3][0]\<close>,
  read past the end of row 0 of A and of B.
\<close>

theorem kernel_odd_not_naive:
  "\<exists>st1 st'. matmul_vec_4x4_slice_init (0, 0) 1
       (ex_machine [100, 200, 300, 400] [1, 2, 3, 4, 5, 6, 7, 8, 9, 10, 11, 12, 13, 14] [1, 2, 3, 4, 5] 1) = Inr st1
     \<and> matmul_vec_4x4 fma_exact (0, 0) (1, 0) (2, 0) 3 1 st1 = Inr st'
     \<and> elem st' (0, 0) 0 = 150
     \<and> naive_fma fma_exact (\<lambda>k. [1, 2, 3, 4, 5, 6, 7, 8, 9, 10, 11, 12, 13, 14] ! k)
          (\<lambda>k. [1, 2, 3, 4, 5] ! k) 100 3 = (114::int)"
proof -
  let ?st = "ex_machine [100, 200, 300, 400] [1, 2, 3, 4, 5, 6, 7, 8, 9, 10, 11, 12, 13, 14] [1, 2, 3, 4, 5] 1"
  have h: "odd (3::nat)" "snd (1, 0) + 4 * 3 + 2 \<le> length (heap ?st (fst (1::nat, 0::nat)))"
    "\<forall>k\<le>3 + 1. in_bounds ?st (padd (2, 0) (k * 1)) (vl ?st)"
    "\<forall>i<4. in_bounds ?st (padd (0, 0) (i * 1)) (vl ?st)" "vl ?st \<le> 1"
    by (simp_all add: all_lt4 in_bounds_def)
  from block_odd [OF h, of fma_exact] obtain st1 st' where
    r: "matmul_vec_4x4_slice_init (0, 0) 1 ?st = Inr st1"
      "matmul_vec_4x4 fma_exact (0, 0) (1, 0) (2, 0) 3 1 st1 = Inr st'" and
    v: "\<forall>i<4. \<forall>j<vl ?st. elem st' (0, 0) (i * 1 + j) =
          fma_exact (elem ?st (1, 0) (i * 3 + (3 + 1))) (elem ?st (2, 0) (3 * 1 + j))
            (naive_fma fma_exact (\<lambda>k. elem ?st (1, 0) (i * 3 + k)) (\<lambda>k. elem ?st (2, 0) (k * 1 + j))
               (elem ?st (0, 0) (i * 1 + j)) (3 + 1))"
    by blast
  have "elem st' (0, 0) 0 = 150"
    using v [rule_format, of 0 0]
    by (simp add: elem_def fma_exact_def)
  moreover have "naive_fma fma_exact (\<lambda>k. [1, 2, 3, 4, 5, 6, 7, 8, 9, 10, 11, 12, 13, 14] ! k)
          (\<lambda>k. [1, 2, 3, 4, 5] ! k) 100 3 = (114::int)"
    by (simp add: fma_exact_def)
  ultimately show ?thesis using r by blast
qed

section \<open>The partial column chunk\<close>

text \<open>
  A run with \<open>N = 1\<close> and \<open>P = 3\<close> on hardware that grants at most 2 elements, with room
  behind A and B: it returns, and leaves \<open>300 + 1*3 + 2*6 + 3*6 = 333\<close> in \<open>C[0][2]\<close>.
\<close>

lemma odd_chunk_run:
  "\<exists>st'. matmul (\<lambda>n. min n 2) fma_exact (0, 0) (1, 0) (2, 0) 4 1 3
       (ex_machine [100, 200, 300, 400, 500, 600, 700, 800, 900, 1000, 1100, 1200]
          [1, 2, 3, 4, 5, 6] [1, 2, 3, 4, 5, 6, 7, 8, 9] 0) = Some (Inr st')
     \<and> elem st' (0, 0) 2 = 333"
proof -
  let ?mach = "ex_machine [100, 200, 300, 400, 500, 600, 700, 800, 900, 1000, 1100, 1200]
          [1, 2, 3, 4, 5, 6] [1, 2, 3, 4, 5, 6, 7, 8, 9] 0"
  \<comment> \<open>first chunk: columns 0 and 1\<close>
  let ?st = "?mach\<lparr>vl := 2, vl := 2\<rparr>"
  have h: "odd (1::nat)" "snd (1, 0) + 4 * 1 + 2 \<le> length (heap ?st (fst (1::nat, 0::nat)))"
    "\<forall>k\<le>1 + 1. in_bounds ?st (padd (padd (2, 0) 0) (k * 3)) (vl ?st)"
    "\<forall>i<4. in_bounds ?st (padd (padd (0, 0) 0) (i * 3)) (vl ?st)" "vl ?st \<le> 3"
    by (simp_all add: all_lt4 all_le2 in_bounds_def)
  from block_odd [OF h, of fma_exact] obtain s1 s2 where
    r1: "matmul_vec_4x4_slice_init (padd (0, 0) 0) 3 ?st = Inr s1"
      "matmul_vec_4x4 fma_exact (padd (0, 0) 0) (1, 0) (padd (2, 0) 0) 1 3 s1 = Inr s2" and
    o1: "\<forall>blk. blk \<noteq> fst (padd (0::nat, 0::nat) 0) \<longrightarrow> heap s2 blk = heap ?st blk" and
    l1: "length (heap s2 (fst (padd (0::nat, 0::nat) 0))) = length (heap ?st (fst (padd (0::nat, 0::nat) 0)))" and
    f1: "\<forall>idx<length (heap ?st (fst (padd (0::nat, 0::nat) 0))).
           (\<forall>i<4. \<forall>j<vl ?st. idx \<noteq> snd (padd (0::nat, 0::nat) 0) + i * 3 + j)
           \<longrightarrow> heap s2 (fst (padd (0::nat, 0::nat) 0)) ! idx = heap ?st (fst (padd (0::nat, 0::nat) 0)) ! idx"
    by blast
  have ne: "\<forall>i<4. \<forall>j<vl ?st. (2::nat) \<noteq> snd (padd (0::nat, 0::nat) 0) + i * 3 + j"
    by (simp add: all_lt4 all_lt2)
  have hs2: "heap s2 (Suc 0) = [1, 2, 3, 4, 5, 6]" "heap s2 2 = [1, 2, 3, 4, 5, 6, 7, 8, 9]"
    "length (heap s2 0) = 12" "heap s2 0 ! 2 = 300"
    using o1 [rule_format, of 1] o1 [rule_format, of 2] l1 f1 [rule_format, of 2, OF _ ne [rule_format]]
    by simp_all
  have hs2': "heap s2 0 ! Suc (Suc 0) = 300"
    using hs2(4) by (simp add: numeral_2_eq_2)
  \<comment> \<open>final chunk: column 2\<close>
  let ?s2 = "s2\<lparr>vl := 1\<rparr>"
  have h2: "odd (1::nat)" "snd (1, 0) + 4 * 1 + 2 \<le> length (heap ?s2 (fst (1::nat, 0::nat)))"
    "\<forall>k\<le>1 + 1. in_bounds ?s2 (padd (padd (2, 0) 2) (k * 3)) (vl ?s2)"
    "\<forall>i<4. in_bounds ?s2 (padd (padd (0, 0) 2) (i * 3)) (vl ?s2)" "vl ?s2 \<le> 3"
    by (simp_all add: all_lt4 all_le2 in_bounds_def hs2)
  from block_odd [OF h2, of fma_exact] obtain s3 s4 where
    r2: "matmul_vec_4x4_slice_init (padd (0, 0) 2) 3 ?s2 = Inr s3"
      "matmul_vec_4x4 fma_exact (padd (0, 0) 2) (1, 0) (padd (2, 0) 2) 1 3 s3 = Inr s4" and
    v2: "\<forall>i<4. \<forall>j<vl ?s2. elem s4 (padd (0, 0) 2) (i * 3 + j) =
          fma_exact (elem ?s2 (1, 0) (i * 1 + (1 + 1))) (elem ?s2 (padd (2, 0) 2) (1 * 3 + j))
            (naive_fma fma_exact (\<lambda>k. elem ?s2 (1, 0) (i * 1 + k)) (\<lambda>k. elem ?s2 (padd (2, 0) 2) (k * 3 + j))
               (elem ?s2 (padd (0, 0) 2) (i * 3 + j)) (1 + 1))"
    by blast
  have val: "elem s4 (0, 0) 2 = 333"
    using v2 [rule_format, of 0 0] hs2 hs2' by (simp add: elem_def fma_exact_def)
  note step0 = col_loop_step [where p = 0 and P = 3 and bsp = 2 and v = 2 and p' = 2
      and grant = "\<lambda>n. min n 2", simplified]
  note step2 = col_loop_step [where p = 2 and P = 3 and bsp = 2 and v = 1 and p' = 4
      and grant = "\<lambda>n. min n 2", simplified]
  have "matmul (\<lambda>n. min n 2) fma_exact (0, 0) (1, 0) (2, 0) 4 1 3 ?mach = Some (Inr s4)"
    using r1 r2 by (simp add: matmul_def vsetvli_def step0 step2 col_loop_done)
  with val show ?thesis by simp
qed

text \<open>With \<open>P = 3\<close> and chunks of 2, no vector access of 2 elements starts at offset 2.\<close>

lemma chunk_cols_3_2:
  assumes "e = Vse (x, 2) 2 \<or> e = Vle (x, 2) 2"
  shows "\<not> chunk_cols (2, 0) (0, 0) 3 2 e"
proof
  assume "chunk_cols (2, 0) (0, 0) 3 2 e"
  with assms obtain p r where p: "p < (3::nat)" "2 dvd p" "(2::nat) = min (3 - p) 2"
    and q: "(x, 2) = padd (2, 0) (r * 3 + p) \<or> (x, 2) = padd (0, 0) (r * 3 + p)"
    unfolding chunk_cols_def by blast
  from p(3) have "p \<le> 1" by simp
  with p(2) have "p = 0" by (cases p) simp_all
  with q have "(2::nat) = r * 3" by (auto simp: padd_def)
  then show False by presburger
qed

text \<open>
  Claim C4, as amended. On hardware that grants a request not above its longest vector as
  it is, let \<open>P\<close> not be a multiple of the first granted length \<open>VL0 = grant P\<close>. For every
  \<open>M\<close>, \<open>N\<close>, multiply-add and memory, a run of \<^verbatim>\<open>matmul\<close> that returns has processed the
  final, partial chunk with vector length exactly \<open>min (P - p) VL0\<close>, where \<open>p < P\<close> is the
  multiple of \<open>VL0\<close> with \<open>P < p + VL0\<close> (this is the vector length in force when the run
  ends), and every vector access of the run starts at a column \<open>p' < P\<close> that is a multiple
  of \<open>VL0\<close> and has exactly \<open>min (P - p') VL0\<close> elements: no column \<open>\<ge> P\<close> is read or
  written, and none is left out. For even \<open>N \<ge> 2\<close> (with \<open>M\<close> a multiple of 4 and the
  buffers as in C1) the run returns and every column \<open>j < P\<close>, those of the final chunk
  included, holds the correct value in every row.
\<close>

theorem final_chunk_exact:
  assumes "rvv_grant vlmax grant" and nd: "\<not> grant P dvd P"
  shows "(\<forall>st'. matmul grant fma c a b M N P st = Some (Inr st') \<longrightarrow>
            traced (chunk_cols b c P (grant P)) st st' \<and>
            (\<exists>p<P. grant P dvd p \<and> P < p + grant P \<and> vl st' = min (P - p) (grant P)))
       \<and> (even N \<and> 0 < N \<and> 4 dvd M \<and> fst a \<noteq> fst c \<and> fst b \<noteq> fst c
            \<and> snd a + M * N \<le> length (heap st (fst a))
            \<and> snd b + N * P \<le> length (heap st (fst b))
            \<and> snd c + M * P \<le> length (heap st (fst c)) \<longrightarrow>
          (\<exists>st'. matmul grant fma c a b M N P st = Some (Inr st') \<and>
             (\<forall>i<M. \<forall>j<P. elem st' c (i * P + j) =
                naive_fma fma (\<lambda>k. elem st a (i * N + k)) (\<lambda>k. elem st b (k * P + j))
                  (elem st c (i * P + j)) N)))"
proof (intro conjI allI impI)
  have P: "0 < P" using nd by (cases P) simp_all
  {
    fix st' assume r: "matmul grant fma c a b M N P st = Some (Inr st')"
    from matmul_log [OF assms(1) P r]
    show "traced (chunk_cols b c P (grant P)) st st'" by simp
    from matmul_log [OF assms(1) P r] obtain p where
      p: "p < P" "grant P dvd p" "P \<le> p + grant P" "vl st' = min (P - p) (grant P)"
      by blast
    have "P \<noteq> p + grant P"
    proof
      assume e: "P = p + grant P"
      have "grant P dvd p + grant P" using p(2) by simp
      then have "grant P dvd P" by (simp only: e [symmetric])
      with nd show False by simp
    qed
    with p show "\<exists>p<P. grant P dvd p \<and> P < p + grant P \<and> vl st' = min (P - p) (grant P)"
      by (intro exI [of _ p]) simp
  }
  assume h: "even N \<and> 0 < N \<and> 4 dvd M \<and> fst a \<noteq> fst c \<and> fst b \<noteq> fst c
            \<and> snd a + M * N \<le> length (heap st (fst a))
            \<and> snd b + N * P \<le> length (heap st (fst b))
            \<and> snd c + M * P \<le> length (heap st (fst c))"
  from h have "even N" "0 < N" "4 dvd M" "0 < P" "fst a \<noteq> fst c" "fst b \<noteq> fst c"
    "snd a + M * N \<le> length (heap st (fst a))"
    "snd b + N * P \<le> length (heap st (fst b))"
    "snd c + M * P \<le> length (heap st (fst c))"
    using P by simp_all
  from matmul_even [OF assms(1) this, of fma]
  show "\<exists>st'. matmul grant fma c a b M N P st = Some (Inr st') \<and>
             (\<forall>i<M. \<forall>j<P. elem st' c (i * P + j) =
                naive_fma fma (\<lambda>k. elem st a (i * N + k)) (\<lambda>k. elem st b (k * P + j))
                  (elem st c (i * P + j)) N)"
    by blast
qed

theorem final_chunk_exact_witness:
  "(\<exists>st'. matmul (\<lambda>n. min n 2) fma_exact (0, 0) (1, 0) (2, 0) 4 2 3
       (ex_machine [100, 200, 300, 400, 500, 600, 700, 800, 900, 1000, 1100, 1200]
          [1, 2, 3, 4, 5, 6, 7, 8] [1, 2, 3, 4, 5, 6] 0) = Some (Inr st')
     \<and> elem st' (0, 0) 2 = 315 \<and> elem st' (0, 0) 11 = 1269 \<and> vl st' = 1
     \<and> Vse (0, 2) 2 \<notin> set (trace st') \<and> Vle (2, 2) 2 \<notin> set (trace st'))
   \<and> (\<exists>st'. matmul (\<lambda>n. min n 2) fma_exact (0, 0) (1, 0) (2, 0) 4 1 3
       (ex_machine [100, 200, 300, 400, 500, 600, 700, 800, 900, 1000, 1100, 1200]
          [1, 2, 3, 4, 5, 6] [1, 2, 3, 4, 5, 6, 7, 8, 9] 0) = Some (Inr st')
     \<and> vl st' = 1
     \<and> Vse (0, 2) 2 \<notin> set (trace st') \<and> Vle (2, 2) 2 \<notin> set (trace st'))"
proof (rule conjI)
  let ?st = "ex_machine [100, 200, 300, 400, 500, 600, 700, 800, 900, 1000, 1100, 1200]
          [1, 2, 3, 4, 5, 6, 7, 8] [1, 2, 3, 4, 5, 6] 0"
  let ?so = "ex_machine [100, 200, 300, 400, 500, 600, 700, 800, 900, 1000, 1100, 1200]
          [1, 2, 3, 4, 5, 6] [1, 2, 3, 4, 5, 6, 7, 8, 9] 0"
  have hw: "rvv_grant 2 (\<lambda>n. min n 2)" by (rule rvv_grant_min) simp
  have nd: "\<not> min 3 2 dvd (3::nat)" by simp
  have geo: "vl s = 1 \<and> Vse (0, 2) 2 \<notin> set (trace s) \<and> Vle (2, 2) 2 \<notin> set (trace s)"
    if tv: "traced (chunk_cols (2, 0) (0, 0) 3 (min 3 2)) s0 s \<and>
        (\<exists>p<3. min 3 2 dvd p \<and> 3 < p + min 3 2 \<and> vl s = min (3 - p) (min 3 2))"
      and s0: "trace s0 = []"
    for s0 s :: "int machine"
  proof -
    from tv obtain p where p: "p < (3::nat)" "3 < p + 2" "vl s = min (3 - p) 2"
      by auto
    from p(1,2) have "p = 2" by simp
    with p(3) have "vl s = 1" by simp
    moreover from tv s0 have "\<forall>e\<in>set (trace s). chunk_cols (2, 0) (0, 0) 3 2 e"
      by (auto simp: traced_def)
    then have "Vse (0, 2) 2 \<notin> set (trace s)" "Vle (2, 2) 2 \<notin> set (trace s)"
      using chunk_cols_3_2 [of "Vse (0, 2) 2" 0] chunk_cols_3_2 [of "Vle (2, 2) 2" 2] by blast+
    ultimately show ?thesis by simp
  qed
  have h: "even (2::nat) \<and> 0 < (2::nat) \<and> 4 dvd (4::nat)
    \<and> fst (1::nat, 0::nat) \<noteq> fst (0::nat, 0::nat) \<and> fst (2::nat, 0::nat) \<noteq> fst (0::nat, 0::nat)
    \<and> snd (1, 0) + 4 * 2 \<le> length (heap ?st (fst (1::nat, 0::nat)))
    \<and> snd (2, 0) + 2 * 3 \<le> length (heap ?st (fst (2::nat, 0::nat)))
    \<and> snd (0, 0) + 4 * 3 \<le> length (heap ?st (fst (0::nat, 0::nat)))"
    by simp
  note inst = final_chunk_exact [OF hw nd, of fma_exact "(0, 0)" "(1, 0)" "(2, 0)" 4 2 ?st]
  from inst [THEN conjunct2, THEN mp, OF h] obtain st' where
    r: "matmul (\<lambda>n. min n 2) fma_exact (0, 0) (1, 0) (2, 0) 4 2 3 ?st = Some (Inr st')" and
    v: "\<forall>i<4. \<forall>j<3. elem st' (0, 0) (i * 3 + j) =
          naive_fma fma_exact (\<lambda>k. elem ?st (1, 0) (i * 2 + k)) (\<lambda>k. elem ?st (2, 0) (k * 3 + j))
            (elem ?st (0, 0) (i * 3 + j)) 2"
    by blast
  have val: "elem st' (0, 0) 2 = 315" "elem st' (0, 0) 11 = 1269"
    using v [rule_format, of 0 2] v [rule_format, of 3 2]
    by (simp_all add: elem_def fma_exact_def)
  from inst [THEN conjunct1, THEN spec, THEN mp, OF r]
  have "vl st' = 1 \<and> Vse (0, 2) 2 \<notin> set (trace st') \<and> Vle (2, 2) 2 \<notin> set (trace st')"
    by (rule geo) simp
  with r val
  show "\<exists>st'. matmul (\<lambda>n. min n 2) fma_exact (0, 0) (1, 0) (2, 0) 4 2 3 ?st = Some (Inr st')
     \<and> elem st' (0, 0) 2 = 315 \<and> elem st' (0, 0) 11 = 1269 \<and> vl st' = 1
     \<and> Vse (0, 2) 2 \<notin> set (trace st') \<and> Vle (2, 2) 2 \<notin> set (trace st')"
    by blast
  from odd_chunk_run obtain so' where
    ro: "matmul (\<lambda>n. min n 2) fma_exact (0, 0) (1, 0) (2, 0) 4 1 3 ?so = Some (Inr so')"
    by blast
  from final_chunk_exact [OF hw nd, of fma_exact "(0, 0)" "(1, 0)" "(2, 0)" 4 1 ?so,
      THEN conjunct1, THEN spec, THEN mp, OF ro]
  have "vl so' = 1 \<and> Vse (0, 2) 2 \<notin> set (trace so') \<and> Vle (2, 2) 2 \<notin> set (trace so')"
    by (rule geo) simp
  with ro
  show "\<exists>st'. matmul (\<lambda>n. min n 2) fma_exact (0, 0) (1, 0) (2, 0) 4 1 3 ?so = Some (Inr st')
     \<and> vl st' = 1 \<and> Vse (0, 2) 2 \<notin> set (trace st') \<and> Vle (2, 2) 2 \<notin> set (trace st')"
    by blast
qed

text \<open>
  The claim as stated, for every \<open>N\<close>, fails at \<open>N = 1\<close>, \<open>P = 3\<close> on hardware that grants at
  most 2 elements: the final chunk is column 2, processed with vector length 1, and
  \<open>C[0][2]\<close> becomes \<open>300 + 1*3 + 2*6 + 3*6 = 333\<close> instead of \<open>300 + 1*3 = 303\<close>.
\<close>

theorem final_chunk_odd_wrong:
  "\<exists>st'. matmul (\<lambda>n. min n 2) fma_exact (0, 0) (1, 0) (2, 0) 4 1 3
       (ex_machine [100, 200, 300, 400, 500, 600, 700, 800, 900, 1000, 1100, 1200]
          [1, 2, 3, 4, 5, 6] [1, 2, 3, 4, 5, 6, 7, 8, 9] 0) = Some (Inr st')
     \<and> elem st' (0, 0) 2 = 333 \<and> 300 + (\<Sum>k<1. [1, 2, 3, 4] ! k * [1, 2, 3] ! (k * 3 + 2)) = (303::int)"
  using odd_chunk_run by simp

section \<open>Even \<open>N\<close>: no access out of bounds\<close>

text \<open>
  Claim C5. On hardware that grants vector lengths as the vector extension requires, for
  \<open>M\<close> a multiple of 4, even \<open>N \<ge> 2\<close>, \<open>P \<ge> 1\<close> and buffers that hold the three matrices
  (buffers of exactly \<open>M*N\<close>, \<open>N*P\<close> and \<open>M*P\<close> elements included), \<^verbatim>\<open>matmul\<close> returns a
  final state: no load or store of its kernel calls takes the fault branch. Every access
  it logs is a scalar \<open>A[i][k]\<close> or a chunk of row \<open>k\<close> of B with \<open>k \<le> N - 1\<close>, or a chunk
  of a row of C, and lies inside the elements of its matrix.
\<close>

theorem even_run_in_bounds:
  assumes "rvv_grant vlmax grant"
    and "even N" and "0 < N" and "4 dvd M" and "0 < P"
    and "fst a \<noteq> fst c" and "fst b \<noteq> fst c"
    and "snd a + M * N \<le> length (heap st (fst a))"
    and "snd b + N * P \<le> length (heap st (fst b))"
    and "snd c + M * P \<le> length (heap st (fst c))"
  shows "\<exists>st'. matmul grant fma c a b M N P st = Some (Inr st')
     \<and> traced (\<lambda>e. mm_access a b c M N P (grant P) e \<and> in_matrices a b c M N P e) st st'"
proof -
  from matmul_even [OF assms, of fma] obtain st' where
    r: "matmul grant fma c a b M N P st = Some (Inr st')" and
    t: "traced (mm_access a b c M N P (grant P)) st st'"
    by blast
  from t have "traced (\<lambda>e. mm_access a b c M N P (grant P) e \<and> in_matrices a b c M N P e) st st'"
    by (rule traced_mono) (simp add: mm_access_in_matrices)
  with r show ?thesis by blast
qed

theorem even_run_in_bounds_witness:
  "\<exists>st'. matmul (\<lambda>n. min n 2) fma_exact (0, 0) (1, 0) (2, 0) 4 2 3
       (ex_machine [100, 200, 300, 400, 500, 600, 700, 800, 900, 1000, 1100, 1200]
          [1, 2, 3, 4, 5, 6, 7, 8] [1, 2, 3, 4, 5, 6] 0) = Some (Inr st')
     \<and> Fld (1, 8) \<notin> set (trace st') \<and> Vle (2, 6) 1 \<notin> set (trace st')
     \<and> Vle (2, 5) 2 \<notin> set (trace st')"
proof -
  let ?st = "ex_machine [100, 200, 300, 400, 500, 600, 700, 800, 900, 1000, 1100, 1200]
          [1, 2, 3, 4, 5, 6, 7, 8] [1, 2, 3, 4, 5, 6] 0"
  have hw: "rvv_grant 2 (\<lambda>n. min n 2)" by (rule rvv_grant_min) simp
  have h: "even (2::nat)" "0 < (2::nat)" "4 dvd (4::nat)" "0 < (3::nat)"
    "fst (1::nat, 0::nat) \<noteq> fst (0::nat, 0::nat)" "fst (2::nat, 0::nat) \<noteq> fst (0::nat, 0::nat)"
    "snd (1, 0) + 4 * 2 \<le> length (heap ?st (fst (1::nat, 0::nat)))"
    "snd (2, 0) + 2 * 3 \<le> length (heap ?st (fst (2::nat, 0::nat)))"
    "snd (0, 0) + 4 * 3 \<le> length (heap ?st (fst (0::nat, 0::nat)))"
    by simp_all
  from even_run_in_bounds [OF hw h, of fma_exact] obtain st' where
    r: "matmul (\<lambda>n. min n 2) fma_exact (0, 0) (1, 0) (2, 0) 4 2 3 ?st = Some (Inr st')" and
    t: "traced (\<lambda>e. mm_access (1, 0) (2, 0) (0, 0) 4 2 3 (min 3 2) e
          \<and> in_matrices (1, 0) (2, 0) (0, 0) 4 2 3 e) ?st st'"
    by blast
  from t have all: "\<forall>e\<in>set (trace st'). in_matrices (1, 0) (2, 0) (0, 0) 4 2 3 e"
    by (auto simp: traced_def)
  have "\<not> in_matrices (1, 0) (2, 0) (0, 0) 4 2 3 (Fld (1, 8))"
    "\<not> in_matrices (1, 0) (2, 0) (0, 0) 4 2 3 (Vle (2, 6) 1)"
    "\<not> in_matrices (1, 0) (2, 0) (0, 0) 4 2 3 (Vle (2, 5) 2)"
    by (simp_all add: in_matrices_def within_def)
  with all have "Fld (1, 8) \<notin> set (trace st') \<and> Vle (2, 6) 1 \<notin> set (trace st')
     \<and> Vle (2, 5) 2 \<notin> set (trace st')"
    by blast
  with r show ?thesis by blast
qed

section \<open>Accumulation\<close>

text \<open>
  Two calls with \<open>N = 1\<close>, with room behind A and B: both return, and \<open>C[0][0]\<close> ends as
  \<open>320\<close>.
\<close>

lemma odd_twice_run:
  "\<exists>st' st''. matmul (\<lambda>n. min n 2) fma_exact (0, 0) (1, 0) (2, 0) 4 1 1
       (ex_machine [100, 200, 300, 400] [1, 2, 3, 4, 5, 6] [10, 20, 30] 0) = Some (Inr st')
     \<and> matmul (\<lambda>n. min n 2) fma_exact (0, 0) (1, 0) (2, 0) 4 1 1 st' = Some (Inr st'')
     \<and> elem st'' (0, 0) 0 = 320"
proof -
  let ?mach = "ex_machine [100, 200, 300, 400] [1, 2, 3, 4, 5, 6] [10, 20, 30] 0"
  \<comment> \<open>first call\<close>
  let ?s = "?mach\<lparr>vl := 1\<rparr>"
  have h: "odd (1::nat)" "snd (1, 0) + 4 * 1 + 2 \<le> length (heap ?s (fst (1::nat, 0::nat)))"
    "\<forall>k\<le>1 + 1. in_bounds ?s (padd (2, 0) (k * 1)) (vl ?s)"
    "\<forall>i<4. in_bounds ?s (padd (0, 0) (i * 1)) (vl ?s)" "vl ?s \<le> 1"
    by (simp_all add: all_lt4 all_le2 in_bounds_def)
  from block_odd [OF h, of fma_exact] obtain s1 st' where
    r1: "matmul_vec_4x4_slice_init (0, 0) 1 ?s = Inr s1"
      "matmul_vec_4x4 fma_exact (0, 0) (1, 0) (2, 0) 1 1 s1 = Inr st'" and
    o1: "\<forall>blk. blk \<noteq> fst (0::nat, 0::nat) \<longrightarrow> heap st' blk = heap ?s blk" and
    l1: "length (heap st' (fst (0::nat, 0::nat))) = length (heap ?s (fst (0::nat, 0::nat)))" and
    v1: "\<forall>i<4. \<forall>j<vl ?s. elem st' (0, 0) (i * 1 + j) =
          fma_exact (elem ?s (1, 0) (i * 1 + (1 + 1))) (elem ?s (2, 0) (1 * 1 + j))
            (naive_fma fma_exact (\<lambda>k. elem ?s (1, 0) (i * 1 + k)) (\<lambda>k. elem ?s (2, 0) (k * 1 + j))
               (elem ?s (0, 0) (i * 1 + j)) (1 + 1))"
    by blast
  have m1: "matmul (\<lambda>n. min n 2) fma_exact (0, 0) (1, 0) (2, 0) 4 1 1 ?mach = Some (Inr st')"
    using r1 by (simp add: matmul_single_block)
  have hs: "heap st' (Suc 0) = [1, 2, 3, 4, 5, 6]" "heap st' 2 = [10, 20, 30]"
    "length (heap st' 0) = 4" "heap st' 0 ! 0 = 210"
    using o1 [rule_format, of 1] o1 [rule_format, of 2] l1 v1 [rule_format, of 0 0]
    by (simp_all add: elem_def fma_exact_def)
  \<comment> \<open>second call\<close>
  let ?s' = "st'\<lparr>vl := 1\<rparr>"
  have h': "odd (1::nat)" "snd (1, 0) + 4 * 1 + 2 \<le> length (heap ?s' (fst (1::nat, 0::nat)))"
    "\<forall>k\<le>1 + 1. in_bounds ?s' (padd (2, 0) (k * 1)) (vl ?s')"
    "\<forall>i<4. in_bounds ?s' (padd (0, 0) (i * 1)) (vl ?s')" "vl ?s' \<le> 1"
    by (simp_all add: all_lt4 all_le2 in_bounds_def hs)
  from block_odd [OF h', of fma_exact] obtain s2 st'' where
    r2: "matmul_vec_4x4_slice_init (0, 0) 1 ?s' = Inr s2"
      "matmul_vec_4x4 fma_exact (0, 0) (1, 0) (2, 0) 1 1 s2 = Inr st''" and
    v2: "\<forall>i<4. \<forall>j<vl ?s'. elem st'' (0, 0) (i * 1 + j) =
          fma_exact (elem ?s' (1, 0) (i * 1 + (1 + 1))) (elem ?s' (2, 0) (1 * 1 + j))
            (naive_fma fma_exact (\<lambda>k. elem ?s' (1, 0) (i * 1 + k)) (\<lambda>k. elem ?s' (2, 0) (k * 1 + j))
               (elem ?s' (0, 0) (i * 1 + j)) (1 + 1))"
    by blast
  have m2: "matmul (\<lambda>n. min n 2) fma_exact (0, 0) (1, 0) (2, 0) 4 1 1 st' = Some (Inr st'')"
    using r2 by (simp add: matmul_single_block)
  have "elem st'' (0, 0) 0 = 320"
    using v2 [rule_format, of 0 0] hs by (simp add: elem_def fma_exact_def)
  with m1 m2 show ?thesis by auto
qed

text \<open>
  Two calls with \<open>N = 2\<close> on doubles, where A and B hold ones and \<open>C[0][0]\<close> is \<open>2 ^ 53\<close>:
  each multiply-add rounds \<open>2 ^ 53 + 1\<close> back to \<open>2 ^ 53\<close>, so \<open>C[0][0]\<close> ends as \<open>2 ^ 53\<close>.
\<close>

lemma rounded_twice_run:
  "\<exists>st' st''. matmul (\<lambda>n. min n 2) fma_dbl (0, 0) (1, 0) (2, 0) 4 2 1
       (dbl_machine [Fin (2 ^ 53), Fin 0, Fin 0, Fin 0]
          [Fin 1, Fin 1, Fin 1, Fin 1, Fin 1, Fin 1, Fin 1, Fin 1] [Fin 1, Fin 1] 0) = Some (Inr st')
     \<and> matmul (\<lambda>n. min n 2) fma_dbl (0, 0) (1, 0) (2, 0) 4 2 1 st' = Some (Inr st'')
     \<and> elem st'' (0, 0) 0 = Fin (2 ^ 53)"
proof -
  let ?m = "dbl_machine [Fin (2 ^ 53), Fin 0, Fin 0, Fin 0]
          [Fin 1, Fin 1, Fin 1, Fin 1, Fin 1, Fin 1, Fin 1, Fin 1] [Fin 1, Fin 1] 0"
  have hw: "rvv_grant 2 (\<lambda>n. min n 2)" by (rule rvv_grant_min) simp
  have h: "even (2::nat)" "0 < (2::nat)" "4 dvd (4::nat)" "0 < (1::nat)"
    "fst (1::nat, 0::nat) \<noteq> fst (0::nat, 0::nat)" "fst (2::nat, 0::nat) \<noteq> fst (0::nat, 0::nat)"
    "snd (1, 0) + 4 * 2 \<le> length (heap ?m (fst (1::nat, 0::nat)))"
    "snd (2, 0) + 2 * 1 \<le> length (heap ?m (fst (2::nat, 0::nat)))"
    "snd (0, 0) + 4 * 1 \<le> length (heap ?m (fst (0::nat, 0::nat)))"
    by simp_all
  from matmul_even_twice [OF hw h, of fma_dbl] obtain st' st'' where
    r: "matmul (\<lambda>n. min n 2) fma_dbl (0, 0) (1, 0) (2, 0) 4 2 1 ?m = Some (Inr st')"
      "matmul (\<lambda>n. min n 2) fma_dbl (0, 0) (1, 0) (2, 0) 4 2 1 st' = Some (Inr st'')" and
    v1: "\<forall>i<4. \<forall>j<1. elem st' (0, 0) (i * 1 + j) =
           naive_fma fma_dbl (\<lambda>k. elem ?m (1, 0) (i * 2 + k)) (\<lambda>k. elem ?m (2, 0) (k * 1 + j))
             (elem ?m (0, 0) (i * 1 + j)) 2" and
    v2: "\<forall>i<4. \<forall>j<1. elem st'' (0, 0) (i * 1 + j) =
           naive_fma fma_dbl (\<lambda>k. elem ?m (1, 0) (i * 2 + k)) (\<lambda>k. elem ?m (2, 0) (k * 1 + j))
             (elem st' (0, 0) (i * 1 + j)) 2"
    by blast
  have e1: "elem st' (0, 0) 0 = Fin (2 ^ 53)"
    using v1 [rule_format, of 0 0] by (simp add: elem_def fma_dbl_tie [simplified])
  have "elem st'' (0, 0) 0 = Fin (2 ^ 53)"
    using v2 [rule_format, of 0 0] e1 by (simp add: elem_def fma_dbl_tie [simplified])
  with r show ?thesis by blast
qed

text \<open>
  Claim C6, as amended. For every multiply-add, \<open>M\<close> a multiple of 4, even \<open>N \<ge> 2\<close>,
  \<open>P \<ge> 1\<close> and the buffers and hardware as in C1, two calls of \<^verbatim>\<open>matmul\<close> in succession with
  the same A and B on the same C return; the first leaves in each \<open>C[i][j]\<close> the
  accumulation of the \<open>N\<close> products onto its value \<open>C0[i][j]\<close>, in ascending \<open>k\<close>, and the
  second leaves the same accumulation onto what the first left: each call reads C as its
  base. (Without rounding that is \<open>C0 + 2 * (A*B)\<close>, by \<open>naive_fma_twice_exact\<close>.)
\<close>

theorem matmul_twice:
  assumes "rvv_grant vlmax grant"
    and "even N" and "0 < N" and "4 dvd M" and "0 < P"
    and "fst a \<noteq> fst c" and "fst b \<noteq> fst c"
    and "snd a + M * N \<le> length (heap st (fst a))"
    and "snd b + N * P \<le> length (heap st (fst b))"
    and "snd c + M * P \<le> length (heap st (fst c))"
  shows "\<exists>st' st''. matmul grant fma c a b M N P st = Some (Inr st')
     \<and> matmul grant fma c a b M N P st' = Some (Inr st'')
     \<and> (\<forall>i<M. \<forall>j<P. elem st' c (i * P + j) =
           naive_fma fma (\<lambda>k. elem st a (i * N + k)) (\<lambda>k. elem st b (k * P + j))
             (elem st c (i * P + j)) N)
     \<and> (\<forall>i<M. \<forall>j<P. elem st'' c (i * P + j) =
           naive_fma fma (\<lambda>k. elem st a (i * N + k)) (\<lambda>k. elem st b (k * P + j))
             (naive_fma fma (\<lambda>k. elem st a (i * N + k)) (\<lambda>k. elem st b (k * P + j))
                (elem st c (i * P + j)) N) N)"
proof -
  from matmul_even_twice [OF assms, of fma] obtain st' st'' where
    r: "matmul grant fma c a b M N P st = Some (Inr st')"
      "matmul grant fma c a b M N P st' = Some (Inr st'')" and
    v1: "\<forall>i<M. \<forall>j<P. elem st' c (i * P + j) =
           naive_fma fma (\<lambda>k. elem st a (i * N + k)) (\<lambda>k. elem st b (k * P + j))
             (elem st c (i * P + j)) N" and
    v2: "\<forall>i<M. \<forall>j<P. elem st'' c (i * P + j) =
           naive_fma fma (\<lambda>k. elem st a (i * N + k)) (\<lambda>k. elem st b (k * P + j))
             (elem st' c (i * P + j)) N"
    by blast
  from v1 v2 have "\<forall>i<M. \<forall>j<P. elem st'' c (i * P + j) =
           naive_fma fma (\<lambda>k. elem st a (i * N + k)) (\<lambda>k. elem st b (k * P + j))
             (naive_fma fma (\<lambda>k. elem st a (i * N + k)) (\<lambda>k. elem st b (k * P + j))
                (elem st c (i * P + j)) N) N"
    by simp
  with r v1 show ?thesis by blast
qed

theorem matmul_twice_witness:
  "\<exists>st' st''. matmul (\<lambda>n. min n 2) fma_exact (0, 0) (1, 0) (2, 0) 4 2 3
       (ex_machine [100, 200, 300, 400, 500, 600, 700, 800, 900, 1000, 1100, 1200]
          [1, 2, 3, 4, 5, 6, 7, 8] [1, 2, 3, 4, 5, 6] 0) = Some (Inr st')
     \<and> matmul (\<lambda>n. min n 2) fma_exact (0, 0) (1, 0) (2, 0) 4 2 3 st' = Some (Inr st'')
     \<and> elem st' (0, 0) 0 = 109 \<and> elem st'' (0, 0) 0 = 118
     \<and> elem st' (0, 0) 11 = 1269 \<and> elem st'' (0, 0) 11 = 1338"
proof -
  let ?m = "ex_machine [100, 200, 300, 400, 500, 600, 700, 800, 900, 1000, 1100, 1200]
          [1, 2, 3, 4, 5, 6, 7, 8] [1, 2, 3, 4, 5, 6] 0"
  have hw: "rvv_grant 2 (\<lambda>n. min n 2)" by (rule rvv_grant_min) simp
  have h: "even (2::nat)" "0 < (2::nat)" "4 dvd (4::nat)" "0 < (3::nat)"
    "fst (1::nat, 0::nat) \<noteq> fst (0::nat, 0::nat)" "fst (2::nat, 0::nat) \<noteq> fst (0::nat, 0::nat)"
    "snd (1, 0) + 4 * 2 \<le> length (heap ?m (fst (1::nat, 0::nat)))"
    "snd (2, 0) + 2 * 3 \<le> length (heap ?m (fst (2::nat, 0::nat)))"
    "snd (0, 0) + 4 * 3 \<le> length (heap ?m (fst (0::nat, 0::nat)))"
    by simp_all
  from matmul_twice [OF hw h, of fma_exact] obtain st' st'' where
    r: "matmul (\<lambda>n. min n 2) fma_exact (0, 0) (1, 0) (2, 0) 4 2 3 ?m = Some (Inr st')"
      "matmul (\<lambda>n. min n 2) fma_exact (0, 0) (1, 0) (2, 0) 4 2 3 st' = Some (Inr st'')" and
    v1: "\<forall>i<4. \<forall>j<3. elem st' (0, 0) (i * 3 + j) =
           naive_fma fma_exact (\<lambda>k. elem ?m (1, 0) (i * 2 + k)) (\<lambda>k. elem ?m (2, 0) (k * 3 + j))
             (elem ?m (0, 0) (i * 3 + j)) 2" and
    v2: "\<forall>i<4. \<forall>j<3. elem st'' (0, 0) (i * 3 + j) =
           naive_fma fma_exact (\<lambda>k. elem ?m (1, 0) (i * 2 + k)) (\<lambda>k. elem ?m (2, 0) (k * 3 + j))
             (naive_fma fma_exact (\<lambda>k. elem ?m (1, 0) (i * 2 + k)) (\<lambda>k. elem ?m (2, 0) (k * 3 + j))
                (elem ?m (0, 0) (i * 3 + j)) 2) 2"
    by blast
  have "elem st' (0, 0) 0 = 109" "elem st'' (0, 0) 0 = 118"
    "elem st' (0, 0) 11 = 1269" "elem st'' (0, 0) 11 = 1338"
    using v1 [rule_format, of 0 0] v2 [rule_format, of 0 0] v1 [rule_format, of 3 2]
      v2 [rule_format, of 3 2]
    by (simp_all add: elem_def fma_exact_def)
  with r show ?thesis by blast
qed

text \<open>
  The claim as stated fails in two ways. For odd \<open>N\<close>: at \<open>M = 4\<close>, \<open>N = P = 1\<close>, with room
  behind the matrices, two calls leave \<open>320\<close> in \<open>C[0][0]\<close> where \<open>C0 + 2 * (A*B)\<close> is \<open>120\<close>.
  For even \<open>N\<close>, by rounding: at \<open>N = 2\<close> with ones in A and B and \<open>C0[0][0] = 2 ^ 53\<close>, two
  calls leave \<open>2 ^ 53\<close> where \<open>C0 + 2 * (A*B)\<close> is the double \<open>2 ^ 53 + 4\<close>.
\<close>

theorem matmul_twice_wrong:
  "(\<exists>st' st''. matmul (\<lambda>n. min n 2) fma_exact (0, 0) (1, 0) (2, 0) 4 1 1
       (ex_machine [100, 200, 300, 400] [1, 2, 3, 4, 5, 6] [10, 20, 30] 0) = Some (Inr st')
     \<and> matmul (\<lambda>n. min n 2) fma_exact (0, 0) (1, 0) (2, 0) 4 1 1 st' = Some (Inr st'')
     \<and> elem st'' (0, 0) 0 = 320
     \<and> 100 + 2 * (\<Sum>k<1. [1, 2, 3, 4] ! k * [10] ! k) = (120::int))
   \<and> (\<exists>st' st''. matmul (\<lambda>n. min n 2) fma_dbl (0, 0) (1, 0) (2, 0) 4 2 1
       (dbl_machine [Fin (2 ^ 53), Fin 0, Fin 0, Fin 0]
          [Fin 1, Fin 1, Fin 1, Fin 1, Fin 1, Fin 1, Fin 1, Fin 1] [Fin 1, Fin 1] 0) = Some (Inr st')
     \<and> matmul (\<lambda>n. min n 2) fma_dbl (0, 0) (1, 0) (2, 0) 4 2 1 st' = Some (Inr st'')
     \<and> elem st'' (0, 0) 0 = Fin (2 ^ 53)
     \<and> 2 ^ 53 + 2 * (\<Sum>k<2. [1, 1] ! k * [1, 1] ! k) = (2 ^ 53 + 4 :: int)
     \<and> round_dbl (2 ^ 53 + 4) = Fin (2 ^ 53 + 4))"
proof (rule conjI)
  from odd_twice_run
  show "\<exists>st' st''. matmul (\<lambda>n. min n 2) fma_exact (0, 0) (1, 0) (2, 0) 4 1 1
       (ex_machine [100, 200, 300, 400] [1, 2, 3, 4, 5, 6] [10, 20, 30] 0) = Some (Inr st')
     \<and> matmul (\<lambda>n. min n 2) fma_exact (0, 0) (1, 0) (2, 0) 4 1 1 st' = Some (Inr st'')
     \<and> elem st'' (0, 0) 0 = 320
     \<and> 100 + 2 * (\<Sum>k<1. [1, 2, 3, 4] ! k * [10] ! k) = (120::int)"
    by simp
  have s: "2 ^ 53 + 2 * (\<Sum>k<2. [1, 1] ! k * [1, 1] ! k) = (2 ^ 53 + 4 :: int)"
    by (simp add: sum_lt2)
  have "excess (2 ^ 53 + 4) = 1"
    by (subst excess.simps, simp, subst excess.simps, simp)
  moreover have "\<bar>2 ^ 53 + 4 :: int\<bar> = 2 ^ 53 + 4" by simp
  ultimately have e: "excess \<bar>2 ^ 53 + 4 :: int\<bar> = 1" by simp
  have "rne53 (2 ^ 53 + 4) = 2 ^ 53 + 4" unfolding rne53_def e Let_def by simp
  then have rd: "round_dbl (2 ^ 53 + 4) = Fin (2 ^ 53 + 4)"
    by (simp add: round_dbl_def)
  from rounded_twice_run s rd
  show "\<exists>st' st''. matmul (\<lambda>n. min n 2) fma_dbl (0, 0) (1, 0) (2, 0) 4 2 1
       (dbl_machine [Fin (2 ^ 53), Fin 0, Fin 0, Fin 0]
          [Fin 1, Fin 1, Fin 1, Fin 1, Fin 1, Fin 1, Fin 1, Fin 1] [Fin 1, Fin 1] 0) = Some (Inr st')
     \<and> matmul (\<lambda>n. min n 2) fma_dbl (0, 0) (1, 0) (2, 0) 4 2 1 st' = Some (Inr st'')
     \<and> elem st'' (0, 0) 0 = Fin (2 ^ 53)
     \<and> 2 ^ 53 + 2 * (\<Sum>k<2. [1, 1] ! k * [1, 1] ! k) = (2 ^ 53 + 4 :: int)
     \<and> round_dbl (2 ^ 53 + 4) = Fin (2 ^ 53 + 4)"
    by blast
qed

section \<open>A zero operand\<close>

text \<open>
  A run with \<open>N = 1\<close> on a zero \<open>4 \<times> 1\<close> matrix A followed in memory by \<open>5\<close> and \<open>7\<close>: it
  returns, and \<open>C[3][0]\<close> goes from \<open>400\<close> to \<open>412\<close>.
\<close>

lemma odd_zero_run:
  "\<exists>st'. matmul (\<lambda>n. min n 2) fma_exact (0, 0) (1, 0) (2, 0) 4 1 1
       (ex_machine [100, 200, 300, 400] [0, 0, 0, 0, 5, 7] [1, 1, 1] 0) = Some (Inr st')
     \<and> elem st' (0, 0) 3 = (412::int)"
proof -
  let ?mach = "ex_machine [100, 200, 300, 400] [0, 0, 0, 0, 5, 7] [1, 1, 1] 0"
  let ?s = "?mach\<lparr>vl := 1\<rparr>"
  have h: "odd (1::nat)" "snd (1, 0) + 4 * 1 + 2 \<le> length (heap ?s (fst (1::nat, 0::nat)))"
    "\<forall>k\<le>1 + 1. in_bounds ?s (padd (2, 0) (k * 1)) (vl ?s)"
    "\<forall>i<4. in_bounds ?s (padd (0, 0) (i * 1)) (vl ?s)" "vl ?s \<le> 1"
    by (simp_all add: all_lt4 all_le2 in_bounds_def)
  from block_odd [OF h, of fma_exact] obtain s1 st' where
    r1: "matmul_vec_4x4_slice_init (0, 0) 1 ?s = Inr s1"
      "matmul_vec_4x4 fma_exact (0, 0) (1, 0) (2, 0) 1 1 s1 = Inr st'" and
    v1: "\<forall>i<4. \<forall>j<vl ?s. elem st' (0, 0) (i * 1 + j) =
          fma_exact (elem ?s (1, 0) (i * 1 + (1 + 1))) (elem ?s (2, 0) (1 * 1 + j))
            (naive_fma fma_exact (\<lambda>k. elem ?s (1, 0) (i * 1 + k)) (\<lambda>k. elem ?s (2, 0) (k * 1 + j))
               (elem ?s (0, 0) (i * 1 + j)) (1 + 1))"
    by blast
  have m1: "matmul (\<lambda>n. min n 2) fma_exact (0, 0) (1, 0) (2, 0) 4 1 1 ?mach = Some (Inr st')"
    using r1 by (simp add: matmul_single_block)
  have "elem st' (0, 0) 3 = 412"
    using v1 [rule_format, of 3 0] by (simp add: elem_def fma_exact_def)
  with m1 show ?thesis by auto
qed

text \<open>
  A run with \<open>N = 2\<close> on doubles, with a zero A and an infinity in \<open>B[0][0]\<close>: zero times
  infinity is NaN, and \<open>C[0][0]\<close> goes from \<open>1\<close> to NaN.
\<close>

lemma nan_zero_run:
  "\<exists>st'. matmul (\<lambda>n. min n 2) fma_dbl (0, 0) (1, 0) (2, 0) 4 2 1
       (dbl_machine [Fin 1, Fin 2, Fin 3, Fin 4] [0, 0, 0, 0, 0, 0, 0, 0] [PInf, Fin 1] 0)
         = Some (Inr st')
     \<and> elem st' (0, 0) 0 = NaN"
proof -
  let ?m = "dbl_machine [Fin 1, Fin 2, Fin 3, Fin 4] [0, 0, 0, 0, 0, 0, 0, 0] [PInf, Fin 1] 0"
  have hw: "rvv_grant 2 (\<lambda>n. min n 2)" by (rule rvv_grant_min) simp
  have h: "even (2::nat)" "0 < (2::nat)" "4 dvd (4::nat)" "0 < (1::nat)"
    "fst (1::nat, 0::nat) \<noteq> fst (0::nat, 0::nat)" "fst (2::nat, 0::nat) \<noteq> fst (0::nat, 0::nat)"
    "snd (1, 0) + 4 * 2 \<le> length (heap ?m (fst (1::nat, 0::nat)))"
    "snd (2, 0) + 2 * 1 \<le> length (heap ?m (fst (2::nat, 0::nat)))"
    "snd (0, 0) + 4 * 1 \<le> length (heap ?m (fst (0::nat, 0::nat)))"
    by simp_all
  from matmul_even [OF hw h, of fma_dbl] obtain st' where
    r: "matmul (\<lambda>n. min n 2) fma_dbl (0, 0) (1, 0) (2, 0) 4 2 1 ?m = Some (Inr st')" and
    v: "\<forall>i<4. \<forall>j<1. elem st' (0, 0) (i * 1 + j) =
           naive_fma fma_dbl (\<lambda>k. elem ?m (1, 0) (i * 2 + k)) (\<lambda>k. elem ?m (2, 0) (k * 1 + j))
             (elem ?m (0, 0) (i * 1 + j)) 2"
    by blast
  have "elem st' (0, 0) 0 = NaN"
    using v [rule_format, of 0 0] by (simp add: elem_def fma_dbl_NaN)
  with r show ?thesis by blast
qed

text \<open>
  Claim C7, as amended. For every multiply-add, \<open>M\<close> a multiple of 4, even \<open>N \<ge> 2\<close>,
  \<open>P \<ge> 1\<close> and the buffers and hardware as in C1: if every element of A is zero and the
  multiply-add of zero times an element of B onto an element of C in the same column
  returns that element of C, or every element of B is zero and the same holds of the
  elements of A times zero, then \<^verbatim>\<open>matmul\<close> returns and the memory is what it was before the
  call; in particular every element of C is unchanged. (On the doubles above the side
  condition holds of all finite operands, by \<open>fma_dbl_zero\<close>.)
\<close>

theorem zero_operand_keeps_C:
  fixes st :: "('a::zero) machine"
  assumes "rvv_grant vlmax grant"
    and "even N" and "0 < N" and "4 dvd M" and "0 < P"
    and "fst a \<noteq> fst c" and "fst b \<noteq> fst c"
    and "snd a + M * N \<le> length (heap st (fst a))"
    and "snd b + N * P \<le> length (heap st (fst b))"
    and "snd c + M * P \<le> length (heap st (fst c))"
    and z: "(\<forall>i<M. \<forall>k<N. elem st a (i * N + k) = 0) \<and>
            (\<forall>i<M. \<forall>k<N. \<forall>j<P.
               fma 0 (elem st b (k * P + j)) (elem st c (i * P + j)) = elem st c (i * P + j))
          \<or> (\<forall>k<N. \<forall>j<P. elem st b (k * P + j) = 0) \<and>
            (\<forall>i<M. \<forall>k<N. \<forall>j<P.
               fma (elem st a (i * N + k)) 0 (elem st c (i * P + j)) = elem st c (i * P + j))"
  shows "\<exists>st'. matmul grant fma c a b M N P st = Some (Inr st') \<and> heap st' = heap st"
proof -
  from matmul_even [OF assms(1-10), of fma] obtain st' where
    r: "matmul grant fma c a b M N P st = Some (Inr st')" and
    o: "\<forall>blk. blk \<noteq> fst c \<longrightarrow> heap st' blk = heap st blk" and
    l: "length (heap st' (fst c)) = length (heap st (fst c))" and
    v: "\<forall>i<M. \<forall>j<P. elem st' c (i * P + j) =
          naive_fma fma (\<lambda>k. elem st a (i * N + k)) (\<lambda>k. elem st b (k * P + j))
            (elem st c (i * P + j)) N" and
    f: "\<forall>idx<length (heap st (fst c)). (\<forall>i<M. \<forall>j<P. idx \<noteq> snd c + i * P + j)
           \<longrightarrow> heap st' (fst c) ! idx = heap st (fst c) ! idx"
    by blast
  have step: "fma (elem st a (i * N + k)) (elem st b (k * P + j)) (elem st c (i * P + j)) =
      elem st c (i * P + j)" if "i < M" "k < N" "j < P" for i k j
    using z that by auto
  have same: "elem st' c (i * P + j) = elem st c (i * P + j)" if "i < M" "j < P" for i j
  proof -
    have "naive_fma fma (\<lambda>k. elem st a (i * N + k)) (\<lambda>k. elem st b (k * P + j))
            (elem st c (i * P + j)) N = elem st c (i * P + j)"
      by (rule naive_fma_absorb) (rule step [OF that(1) _ that(2)])
    with v that show ?thesis by simp
  qed
  have "heap st' (fst c) = heap st (fst c)"
  proof (rule nth_equalityI [OF l])
    fix idx assume "idx < length (heap st' (fst c))"
    with l have idx: "idx < length (heap st (fst c))" by simp
    show "heap st' (fst c) ! idx = heap st (fst c) ! idx"
    proof (cases "\<exists>i<M. \<exists>j<P. idx = snd c + i * P + j")
      case True
      then obtain i j where "i < M" "j < P" "idx = snd c + i * P + j" by blast
      with same [of i j] show ?thesis by (simp add: elem_def add.assoc)
    next
      case False
      with f idx show ?thesis by blast
    qed
  qed
  with o have "heap st' = heap st" by (intro ext) (case_tac "x = fst c", simp_all)
  with r show ?thesis by blast
qed

theorem zero_operand_keeps_C_witness:
  "(\<exists>st'. matmul (\<lambda>n. min n 2) fma_dbl (0, 0) (1, 0) (2, 0) 4 2 2
       (dbl_machine [Fin 100, Fin 200, Fin 300, Fin 400, Fin 500, Fin 600, Fin 700, Fin 800]
          [0, 0, 0, 0, 0, 0, 0, 0] [Fin 1, Fin 2, Fin 3, Fin 4] 0) = Some (Inr st')
     \<and> heap st' 0 = [Fin 100, Fin 200, Fin 300, Fin 400, Fin 500, Fin 600, Fin 700, Fin 800])
   \<and> (\<exists>st'. matmul (\<lambda>n. min n 2) fma_dbl (0, 0) (1, 0) (2, 0) 4 2 2
       (dbl_machine [Fin 100, Fin 200, Fin 300, Fin 400, Fin 500, Fin 600, Fin 700, Fin 800]
          [Fin 1, Fin 2, Fin 3, Fin 4, Fin 5, Fin 6, Fin 7, Fin 8] [0, 0, 0, 0] 0) = Some (Inr st')
     \<and> heap st' 0 = [Fin 100, Fin 200, Fin 300, Fin 400, Fin 500, Fin 600, Fin 700, Fin 800])"
proof (rule conjI)
  let ?C = "[Fin 100, Fin 200, Fin 300, Fin 400, Fin 500, Fin 600, Fin 700, Fin 800]"
  let ?m = "dbl_machine ?C [0, 0, 0, 0, 0, 0, 0, 0] [Fin 1, Fin 2, Fin 3, Fin 4] 0"
  let ?n = "dbl_machine ?C [Fin 1, Fin 2, Fin 3, Fin 4, Fin 5, Fin 6, Fin 7, Fin 8] [0, 0, 0, 0] 0"
  have hw: "rvv_grant 2 (\<lambda>n. min n 2)" by (rule rvv_grant_min) simp
  have h: "even (2::nat)" "0 < (2::nat)" "4 dvd (4::nat)" "0 < (2::nat)"
    "fst (1::nat, 0::nat) \<noteq> fst (0::nat, 0::nat)" "fst (2::nat, 0::nat) \<noteq> fst (0::nat, 0::nat)"
    "snd (1, 0) + 4 * 2 \<le> length (heap ?m (fst (1::nat, 0::nat)))"
    "snd (2, 0) + 2 * 2 \<le> length (heap ?m (fst (2::nat, 0::nat)))"
    "snd (0, 0) + 4 * 2 \<le> length (heap ?m (fst (0::nat, 0::nat)))"
    by simp_all
  have z: "(\<forall>i<4. \<forall>k<2. elem ?m (1, 0) (i * 2 + k) = 0) \<and>
        (\<forall>i<4. \<forall>k<2. \<forall>j<2. fma_dbl 0 (elem ?m (2, 0) (k * 2 + j)) (elem ?m (0, 0) (i * 2 + j))
           = elem ?m (0, 0) (i * 2 + j))
      \<or> (\<forall>k<2. \<forall>j<2. elem ?m (2, 0) (k * 2 + j) = 0) \<and>
        (\<forall>i<4. \<forall>k<2. \<forall>j<2. fma_dbl (elem ?m (1, 0) (i * 2 + k)) 0 (elem ?m (0, 0) (i * 2 + j))
           = elem ?m (0, 0) (i * 2 + j))"
    by (rule disjI1) (simp add: all_lt4 all_lt2 elem_def fma_dbl_zero)
  from zero_operand_keeps_C [OF hw h z] obtain st' where
    "matmul (\<lambda>n. min n 2) fma_dbl (0, 0) (1, 0) (2, 0) 4 2 2 ?m = Some (Inr st')"
    "heap st' = heap ?m"
    by blast
  then show "\<exists>st'. matmul (\<lambda>n. min n 2) fma_dbl (0, 0) (1, 0) (2, 0) 4 2 2 ?m = Some (Inr st')
     \<and> heap st' 0 = ?C"
    by auto
  have h': "even (2::nat)" "0 < (2::nat)" "4 dvd (4::nat)" "0 < (2::nat)"
    "fst (1::nat, 0::nat) \<noteq> fst (0::nat, 0::nat)" "fst (2::nat, 0::nat) \<noteq> fst (0::nat, 0::nat)"
    "snd (1, 0) + 4 * 2 \<le> length (heap ?n (fst (1::nat, 0::nat)))"
    "snd (2, 0) + 2 * 2 \<le> length (heap ?n (fst (2::nat, 0::nat)))"
    "snd (0, 0) + 4 * 2 \<le> length (heap ?n (fst (0::nat, 0::nat)))"
    by simp_all
  have z': "(\<forall>i<4. \<forall>k<2. elem ?n (1, 0) (i * 2 + k) = 0) \<and>
        (\<forall>i<4. \<forall>k<2. \<forall>j<2. fma_dbl 0 (elem ?n (2, 0) (k * 2 + j)) (elem ?n (0, 0) (i * 2 + j))
           = elem ?n (0, 0) (i * 2 + j))
      \<or> (\<forall>k<2. \<forall>j<2. elem ?n (2, 0) (k * 2 + j) = 0) \<and>
        (\<forall>i<4. \<forall>k<2. \<forall>j<2. fma_dbl (elem ?n (1, 0) (i * 2 + k)) 0 (elem ?n (0, 0) (i * 2 + j))
           = elem ?n (0, 0) (i * 2 + j))"
    by (rule disjI2) (simp add: all_lt4 all_lt2 elem_def fma_dbl_zero)
  from zero_operand_keeps_C [OF hw h' z'] obtain st' where
    "matmul (\<lambda>n. min n 2) fma_dbl (0, 0) (1, 0) (2, 0) 4 2 2 ?n = Some (Inr st')"
    "heap st' = heap ?n"
    by blast
  then show "\<exists>st'. matmul (\<lambda>n. min n 2) fma_dbl (0, 0) (1, 0) (2, 0) 4 2 2 ?n = Some (Inr st')
     \<and> heap st' 0 = ?C"
    by auto
qed

text \<open>
  The claim as stated fails in two ways. For odd \<open>N\<close>: at \<open>M = 4\<close>, \<open>N = P = 1\<close> the four
  elements of A are zero, and \<open>C[3][0]\<close> changes from \<open>400\<close> to \<open>412\<close>, by the two elements the
  kernel reads behind row 3 of A. For even \<open>N\<close>, by the special values: at \<open>N = 2\<close> with a
  zero A and \<open>B[0][0]\<close> an infinity, \<open>C[0][0]\<close> changes from \<open>1\<close> to NaN.
\<close>

theorem zero_operand_changes_C:
  "(\<exists>st'. matmul (\<lambda>n. min n 2) fma_exact (0, 0) (1, 0) (2, 0) 4 1 1
       (ex_machine [100, 200, 300, 400] [0, 0, 0, 0, 5, 7] [1, 1, 1] 0) = Some (Inr st')
     \<and> elem st' (0, 0) 3 = (412::int)
     \<and> take (4 * 1) [0, 0, 0, 0, 5, 7] = [0, 0, 0, 0::int])
   \<and> (\<exists>st'. matmul (\<lambda>n. min n 2) fma_dbl (0, 0) (1, 0) (2, 0) 4 2 1
       (dbl_machine [Fin 1, Fin 2, Fin 3, Fin 4] [0, 0, 0, 0, 0, 0, 0, 0] [PInf, Fin 1] 0)
         = Some (Inr st')
     \<and> elem st' (0, 0) 0 = NaN)"
  using odd_zero_run nan_zero_run by simp

section \<open>Side effects\<close>

text \<open>
  Claim C9. Whatever the dimensions and the hardware, when \<^verbatim>\<open>matmul\<close> returns, every
  buffer other than the one \<open>c\<close> points into holds exactly the values it held before the
  call (so A and B, which are other buffers than C, are unchanged), and every buffer,
  including C's, has the size it had: the kernel allocates, frees and resizes nothing.
\<close>

theorem matmul_frame:
  assumes "matmul grant fma c a b M N P st = Some (Inr st')"
  shows "(\<forall>blk. blk \<noteq> fst c \<longrightarrow> heap st' blk = heap st blk) \<and>
         (\<forall>blk. length (heap st' blk) = length (heap st blk))"
proof -
  from assms have "col_loop grant fma c a b M N P (grant P) 0 (st\<lparr>vl := grant P\<rparr>) = Some (Inr st')"
    by (simp add: matmul_def vsetvli_def)
  from col_loop_frame [OF this] show ?thesis by (simp add: frame_ok_def)
qed


theorem matmul_frame_witness:
  "\<exists>st'. matmul (\<lambda>n. min n 2) fma_exact (0, 0) (1, 0) (2, 0) 4 2 3
       (ex_machine [100, 200, 300, 400, 500, 600, 700, 800, 900, 1000, 1100, 1200]
          [1, 2, 3, 4, 5, 6, 7, 8] [1, 2, 3, 4, 5, 6] 0) = Some (Inr st')
     \<and> heap st' 1 = [1, 2, 3, 4, 5, 6, 7, 8] \<and> heap st' 2 = [1, 2, 3, 4, 5, 6]
     \<and> length (heap st' 0) = 12 \<and> length (heap st' 3) = 0"
proof -
  let ?st = "ex_machine [100, 200, 300, 400, 500, 600, 700, 800, 900, 1000, 1100, 1200]
          [1, 2, 3, 4, 5, 6, 7, 8] [1, 2, 3, 4, 5, 6] 0"
  have hw: "rvv_grant 2 (\<lambda>n. min n 2)" by (rule rvv_grant_min) simp
  have h: "even (2::nat)" "0 < (2::nat)" "4 dvd (4::nat)" "0 < (3::nat)"
    "fst (1::nat, 0::nat) \<noteq> fst (0::nat, 0::nat)" "fst (2::nat, 0::nat) \<noteq> fst (0::nat, 0::nat)"
    "snd (1, 0) + 4 * 2 \<le> length (heap ?st (fst (1::nat, 0::nat)))"
    "snd (2, 0) + 2 * 3 \<le> length (heap ?st (fst (2::nat, 0::nat)))"
    "snd (0, 0) + 4 * 3 \<le> length (heap ?st (fst (0::nat, 0::nat)))"
    by simp_all
  from matmul_even [OF hw h, of fma_exact] obtain st' where
    r: "matmul (\<lambda>n. min n 2) fma_exact (0, 0) (1, 0) (2, 0) 4 2 3 ?st = Some (Inr st')"
    by blast
  from matmul_frame [OF r] have
    "heap st' 1 = heap ?st 1" "heap st' 2 = heap ?st 2"
    "length (heap st' 0) = length (heap ?st 0)" "length (heap st' 3) = length (heap ?st 3)"
    by simp_all
  then have "heap st' 1 = [1, 2, 3, 4, 5, 6, 7, 8] \<and> heap st' 2 = [1, 2, 3, 4, 5, 6]
     \<and> length (heap st' 0) = 12 \<and> length (heap st' 3) = 0"
    by (simp add: ex_machine_def)
  with r show ?thesis by blast
qed

section \<open>Termination\<close>

text \<open>
  Claim C10. If the hardware grants at least one element to every request of at least
  one element, \<^verbatim>\<open>matmul\<close> terminates, for all \<open>M\<close>, \<open>N\<close>, \<open>P\<close> (in particular for
  \<open>M, N, P \<ge> 1\<close>): the model returns a result, either the final state or the fault of an
  access outside its buffer. The reduction loop and the row loop are total functions, by
  the measures \<open>N - n\<close> and \<open>M - m\<close>; the column loop returns because \<open>P - p\<close> decreases by
  \<open>block_size_p \<ge> 1\<close>.
\<close>

theorem matmul_terminates:
  assumes "\<forall>n. 1 \<le> n \<longrightarrow> 1 \<le> grant n"
  shows "\<exists>r. matmul grant fma c a b M N P st = Some r"
proof (cases "P = 0")
  case True
  have "\<And>bsp s. col_loop grant fma c a b M N 0 bsp 0 s = Some (Inr s)"
    by (subst col_loop.simps) simp
  with True show ?thesis
    by (simp add: matmul_def vsetvli_def)
next
  case False
  with assms have "0 < grant P" by (simp add: Suc_le_eq)
  from col_loop_terminates [OF this] show ?thesis
    by (simp add: matmul_def vsetvli_def)
qed

theorem matmul_terminates_witness:
  "\<exists>r. matmul (\<lambda>n. min n 2) fma_exact (0, 0) (1, 0) (2, 0) 4 3 3
       (ex_machine [100, 200, 300, 400, 500, 600, 700, 800, 900, 1000, 1100, 1200]
          [1, 2, 3, 4, 5, 6, 7, 8, 9, 10, 11, 12] [1, 2, 3, 4, 5, 6, 7, 8, 9] 0) = Some r"
proof -
  have "\<forall>n. 1 \<le> n \<longrightarrow> 1 \<le> min n (2::nat)" by simp
  from matmul_terminates [OF this] show ?thesis .
qed

end
